theory Spec2Isabelle
  imports Complex_Main "HOL-Library.Word" "HOL-Library.Log_Nat"
begin

unbundle bit_operations_syntax

section \<open>The arena: byte-addressed memory, 64-bit little-endian words\<close>

text \<open>
  The allocator of \<open>src/malloc/mm.c\<close> manages one contiguous arena. Addresses and sizes
  are \<open>size_t\<close>, i.e. 64-bit words; memory is a function from addresses to bytes. A
  \<open>word_t\<close> (header, footer, link field) is read and written as eight bytes, least
  significant byte first.
\<close>

type_synonym memory = "64 word \<Rightarrow> 8 word"

definition load64 :: "memory \<Rightarrow> 64 word \<Rightarrow> 64 word" where
  "load64 m a =
     ucast (m a) OR push_bit 8 (ucast (m (a + 1))) OR push_bit 16 (ucast (m (a + 2)))
     OR push_bit 24 (ucast (m (a + 3))) OR push_bit 32 (ucast (m (a + 4)))
     OR push_bit 40 (ucast (m (a + 5))) OR push_bit 48 (ucast (m (a + 6)))
     OR push_bit 56 (ucast (m (a + 7)))"

definition store64 :: "memory \<Rightarrow> 64 word \<Rightarrow> 64 word \<Rightarrow> memory" where
  "store64 m a v =
     m(a := ucast v, a + 1 := ucast (drop_bit 8 v), a + 2 := ucast (drop_bit 16 v),
       a + 3 := ucast (drop_bit 24 v), a + 4 := ucast (drop_bit 32 v),
       a + 5 := ucast (drop_bit 40 v), a + 6 := ucast (drop_bit 48 v),
       a + 7 := ucast (drop_bit 56 v))"

text \<open>
  The global state: the arena's bytes, the globals \<open>heap_start\<close> and \<open>free_root[15]\<close> of
  mm.c, and the two variables of the heap-growth service (the current break and the end of
  the backing arena).
\<close>

record heap =
  mem :: memory
  heap_start :: "64 word"
  free_root :: "nat \<Rightarrow> 64 word"
  mem_brk :: "64 word"
  mem_max_addr :: "64 word"

section \<open>Constants\<close>

definition seglist_length :: "64 word" where "seglist_length = 15"
definition wsize :: "64 word" where "wsize = 8"
definition dsize :: "64 word" where "dsize = 2 * wsize"
definition min_block_size :: "64 word" where "min_block_size = dsize"
definition chunksize :: "64 word" where "chunksize = push_bit 12 1"
definition alloc_mask :: "64 word" where "alloc_mask = 1"
definition alloc_prev_mask :: "64 word" where "alloc_prev_mask = 2"
definition mini_mask :: "64 word" where "mini_mask = 4"
definition size_mask :: "64 word" where "size_mask = NOT 15"

lemmas const_defs = seglist_length_def wsize_def dsize_def min_block_size_def chunksize_def
  alloc_mask_def alloc_prev_mask_def mini_mask_def size_mask_def

section \<open>Short helper functions\<close>

definition max_c :: "64 word \<Rightarrow> 64 word \<Rightarrow> 64 word" where
  "max_c x y = (if x > y then x else y)"

definition min_c :: "64 word \<Rightarrow> 64 word \<Rightarrow> 64 word" where
  "min_c x y = (if x < y then x else y)"

definition round_up :: "64 word \<Rightarrow> 64 word \<Rightarrow> 64 word" where
  "round_up sz n = n * ((sz + (n - 1)) div n)"

definition pack :: "64 word \<Rightarrow> bool \<Rightarrow> bool \<Rightarrow> 64 word" where
  "pack sz alloc prev_alloc =
     (let w0 = sz;
          w1 = (if alloc then w0 OR alloc_mask else w0);
          w2 = (if prev_alloc then w1 OR alloc_prev_mask else w1);
          w3 = (if sz = min_block_size then w2 OR mini_mask else w2)
      in w3)"

definition extract_size :: "64 word \<Rightarrow> 64 word" where
  "extract_size w = w AND size_mask"

definition extract_mini :: "64 word \<Rightarrow> bool" where
  "extract_mini w = (drop_bit 2 (w AND mini_mask) \<noteq> 0)"

definition extract_alloc :: "64 word \<Rightarrow> bool" where
  "extract_alloc w = (w AND alloc_mask \<noteq> 0)"

definition extract_prev_alloc :: "64 word \<Rightarrow> bool" where
  "extract_prev_alloc w = (drop_bit 1 (w AND alloc_prev_mask) \<noteq> 0)"

text \<open>
  The fields of \<open>block_t\<close>: the header at offset 0; the union at offset 8 holds either
  the payload or the links \<open>successor\<close> (offset 8) and \<open>predecessor\<close> (offset 16).
\<close>

definition get_header :: "heap \<Rightarrow> 64 word \<Rightarrow> 64 word" where
  "get_header s block = load64 (mem s) block"

definition get_successor :: "heap \<Rightarrow> 64 word \<Rightarrow> 64 word" where
  "get_successor s block = load64 (mem s) (block + 8)"

definition get_predecessor :: "heap \<Rightarrow> 64 word \<Rightarrow> 64 word" where
  "get_predecessor s block = load64 (mem s) (block + 16)"

definition store_word :: "64 word \<Rightarrow> 64 word \<Rightarrow> heap \<Rightarrow> heap" where
  "store_word p v s = s\<lparr>mem := store64 (mem s) p v\<rparr>"

definition put_header :: "64 word \<Rightarrow> 64 word \<Rightarrow> heap \<Rightarrow> heap" where
  "put_header block v s = store_word block v s"

definition put_successor :: "64 word \<Rightarrow> 64 word \<Rightarrow> heap \<Rightarrow> heap" where
  "put_successor block v s = store_word (block + 8) v s"

definition put_predecessor :: "64 word \<Rightarrow> 64 word \<Rightarrow> heap \<Rightarrow> heap" where
  "put_predecessor block v s = store_word (block + 16) v s"

definition get_mini :: "heap \<Rightarrow> 64 word \<Rightarrow> bool" where
  "get_mini s block = extract_mini (get_header s block)"

definition get_size :: "heap \<Rightarrow> 64 word \<Rightarrow> 64 word" where
  "get_size s block =
     (if extract_mini (get_header s block) then min_block_size
      else extract_size (get_header s block))"

definition payload_to_header :: "64 word \<Rightarrow> 64 word" where
  "payload_to_header bp = bp - 8"

definition header_to_payload :: "64 word \<Rightarrow> 64 word" where
  "header_to_payload block = block + 8"

definition header_to_footer :: "heap \<Rightarrow> 64 word \<Rightarrow> 64 word" where
  "header_to_footer s block = block + 8 + get_size s block - dsize"

definition footer_to_header :: "heap \<Rightarrow> 64 word \<Rightarrow> 64 word" where
  "footer_to_header s footer = footer + wsize - extract_size (load64 (mem s) footer)"


definition get_alloc :: "heap \<Rightarrow> 64 word \<Rightarrow> bool" where
  "get_alloc s block = extract_alloc (get_header s block)"

definition get_prev_alloc :: "heap \<Rightarrow> 64 word \<Rightarrow> bool" where
  "get_prev_alloc s block = extract_prev_alloc (get_header s block)"

definition set_prev_alloc :: "64 word \<Rightarrow> bool \<Rightarrow> heap \<Rightarrow> heap" where
  "set_prev_alloc block prev_alloc s =
     (if prev_alloc then put_header block (get_header s block OR alloc_prev_mask) s
      else put_header block (get_header s block AND NOT alloc_prev_mask) s)"

definition write_epilogue :: "64 word \<Rightarrow> heap \<Rightarrow> heap" where
  "write_epilogue block s = put_header block (pack 0 True False) s"

definition write_block :: "64 word \<Rightarrow> 64 word \<Rightarrow> bool \<Rightarrow> bool \<Rightarrow> heap \<Rightarrow> heap" where
  "write_block block sz alloc prev_alloc s =
     (let s1 = put_header block (pack sz alloc prev_alloc) s
      in if \<not> alloc \<and> \<not> (sz = min_block_size)
         then store_word (header_to_footer s1 block) (pack sz alloc prev_alloc) s1
         else s1)"

definition write_footer :: "64 word \<Rightarrow> heap \<Rightarrow> heap" where
  "write_footer block s = store_word (header_to_footer s block) (get_header s block) s"

definition find_next :: "heap \<Rightarrow> 64 word \<Rightarrow> 64 word" where
  "find_next s block = block + get_size s block"

definition find_prev_footer :: "64 word \<Rightarrow> 64 word" where
  "find_prev_footer block = block - 8"

definition find_prev :: "heap \<Rightarrow> 64 word \<Rightarrow> 64 word" where
  "find_prev s block =
     (let footerp = find_prev_footer block
      in if extract_mini (load64 (mem s) footerp) then footerp - 8
         else if extract_size (load64 (mem s) footerp) = 0 then 0
         else footer_to_header s footerp)"

definition get_next_free :: "heap \<Rightarrow> 64 word \<Rightarrow> 64 word" where
  "get_next_free s block = get_successor s block AND NOT 7"

text \<open>The loop \<open>for (i = size >> 4; i != 0; i = i >> 1) count++\<close> of \<open>get_seglist_ind\<close>.\<close>

function seglist_count :: "64 word \<Rightarrow> 64 word \<Rightarrow> 64 word" where
  "seglist_count i count = (if i = 0 then count else seglist_count (drop_bit 1 i) (count + 1))"
  by pat_completeness auto
termination
proof (relation "measure (\<lambda>(i, count). unat i)")
  show "wf (measure (\<lambda>(i :: 64 word, count :: 64 word). unat i))" by simp
next
  fix i count :: "64 word"
  assume "i \<noteq> 0"
  then have "0 < unat i" by (simp add: unat_gt_0)
  then have "drop_bit 1 (unat i) < unat i" by (simp add: drop_bit_eq_div)
  then show "((drop_bit 1 i, count + 1), (i, count)) \<in> measure (\<lambda>(i, count). unat i)"
    by (simp add: unat_drop_bit_eq)
qed

declare seglist_count.simps [simp del]

definition get_seglist_ind :: "64 word \<Rightarrow> 64 word" where
  "get_seglist_ind sz =
     (let count = (if sz \<le> 16 then 1 else seglist_count (drop_bit 4 sz) 0)
      in min_c (count - 1) (seglist_length - 1))"

definition get_prev_free :: "heap \<Rightarrow> 64 word \<Rightarrow> 64 word" where
  "get_prev_free s block =
     (if get_mini s block then get_header s block AND NOT 7 else get_predecessor s block)"

definition set_prev_free :: "64 word \<Rightarrow> 64 word \<Rightarrow> heap \<Rightarrow> heap" where
  "set_prev_free block prev s =
     (if get_mini s block then put_header block ((get_header s block AND 7) OR prev) s
      else put_predecessor block prev s)"

definition set_next_free :: "64 word \<Rightarrow> 64 word \<Rightarrow> heap \<Rightarrow> heap" where
  "set_next_free block nxt s =
     (let s1 = put_successor block nxt s
      in if get_mini s1 block then put_successor block (get_successor s1 block OR mini_mask) s1
         else s1)"

definition set_root :: "64 word \<Rightarrow> 64 word \<Rightarrow> heap \<Rightarrow> heap" where
  "set_root ind block s = s\<lparr>free_root := (free_root s)(unat ind := block)\<rparr>"

definition get_root :: "heap \<Rightarrow> 64 word \<Rightarrow> 64 word" where
  "get_root s ind = free_root s (unat ind)"

definition remove_from_free :: "64 word \<Rightarrow> heap \<Rightarrow> heap" where
  "remove_from_free block s =
     (let prev = get_prev_free s block;
          nxt = get_next_free s block;
          seglist_ind = get_seglist_ind (get_size s block)
      in if nxt = 0 \<and> prev = 0 then set_root seglist_ind 0 s
         else if nxt = 0 then set_next_free prev 0 s
         else if prev = 0 then set_root seglist_ind nxt (set_prev_free nxt 0 s)
         else set_prev_free nxt prev (set_next_free prev nxt s))"

definition add_to_free :: "64 word \<Rightarrow> heap \<Rightarrow> heap" where
  "add_to_free block s =
     (let seglist_ind = get_seglist_ind (get_size s block)
      in if get_root s seglist_ind = 0
         then (let s1 = set_root seglist_ind block s;
                   s2 = set_prev_free (get_root s1 seglist_ind) 0 s1
               in set_next_free (get_root s2 seglist_ind) 0 s2)
         else (let s1 = set_prev_free (get_root s seglist_ind) block s;
                   s2 = set_next_free block (get_root s1 seglist_ind) s1;
                   s3 = set_prev_free block 0 s2
               in set_root seglist_ind block s3))"

section \<open>Coalescing, heap extension, splitting, fit search\<close>

definition coalesce_block :: "64 word \<Rightarrow> heap \<Rightarrow> 64 word \<times> heap" where
  "coalesce_block block s =
     (let prev_alloced = get_prev_alloc s block;
          nxt = find_next s block;
          next_alloced = get_alloc s nxt
      in if \<not> next_alloced \<and> \<not> prev_alloced then
           (let prev = find_prev s block;
                new_size = get_size s prev + get_size s block + get_size s nxt;
                s1 = remove_from_free prev s;
                s2 = remove_from_free nxt s1;
                s3 = remove_from_free block s2;
                s4 = write_block prev new_size False True s3
            in (prev, add_to_free prev s4))
         else if \<not> next_alloced then
           (let new_size = get_size s nxt + get_size s block;
                s1 = remove_from_free nxt s;
                s2 = remove_from_free block s1;
                s3 = write_block block new_size False True s2
            in (block, add_to_free block s3))
         else if \<not> prev_alloced then
           (let prev = find_prev s block;
                new_size = get_size s block + get_size s prev;
                s1 = remove_from_free prev s;
                s2 = remove_from_free block s1;
                s3 = write_block prev new_size False True s2
            in (prev, add_to_free prev s3))
         else (block, s))"

text \<open>
  Modelled from the spec: the heap-growth primitive \<open>mem_sbrk\<close> (memlib.c is not part of
  the sources). It extends the end of the contiguous arena by the given number of bytes and
  returns the old break; it fails, returning \<open>(void *)-1\<close> and changing nothing, when the
  byte count is negative as a signed number or the backing arena is exhausted.
\<close>

definition mem_sbrk :: "64 word \<Rightarrow> heap \<Rightarrow> 64 word \<times> heap" where
  "mem_sbrk incr s =
     (if sint incr < 0 \<or> unat (mem_brk s) + unat incr > unat (mem_max_addr s)
      then (- 1, s)
      else (mem_brk s, s\<lparr>mem_brk := mem_brk s + incr\<rparr>))"

definition extend_heap :: "64 word \<Rightarrow> heap \<Rightarrow> 64 word \<times> heap" where
  "extend_heap sz0 s =
     (let sz = round_up sz0 dsize;
          (bp, s1) = mem_sbrk sz s
      in if bp = - 1 then (0, s1)
         else
           (let block = payload_to_header bp;
                old_epi = bp - 8;
                s2 = write_block block sz False (get_prev_alloc s1 old_epi) s1;
                s3 = add_to_free block s2;
                block_next = find_next s3 block;
                s4 = write_epilogue block_next s3
            in coalesce_block block s4))"

definition split_block :: "64 word \<Rightarrow> 64 word \<Rightarrow> heap \<Rightarrow> heap" where
  "split_block block asize s =
     (let block_size = get_size s block
      in if block_size - asize \<ge> min_block_size then
           (let s1 = write_block block asize True True s;
                block_next = find_next s1 block;
                s2 = write_block block_next (block_size - asize) False True s1
            in add_to_free block_next s2)
         else s)"

text \<open>
  The first loop of \<open>find_fit\<close>, over the home bucket. The counter \<open>checked\<close> is a C
  \<open>int\<close>. The result is \<open>(True, min)\<close> for the early \<open>return min\<close> inside the loop and
  \<open>(False, min)\<close> when the list ends. A list that never reaches \<open>NULL\<close> gives \<open>None\<close>.
\<close>

partial_function (option) find_fit_loop ::
  "heap \<Rightarrow> 64 word \<Rightarrow> 64 word \<Rightarrow> 64 word \<Rightarrow> 32 word \<Rightarrow> (bool \<times> 64 word) option" where
  "find_fit_loop s asize block minb checked =
     (if block = 0 then Some (False, minb)
      else if asize \<le> get_size s block then
        (let min1 = (if minb = 0 then block else minb);
             min2 = (if get_size s block < get_size s min1 then block else min1)
         in if min2 \<noteq> 0 \<and> 9 <s checked then Some (True, min2)
            else find_fit_loop s asize (get_next_free s block) min2 (checked + 1))
      else find_fit_loop s asize (get_next_free s block) minb (checked + 1))"

text \<open>The second loop of \<open>find_fit\<close>: the head of the first non-empty larger bucket.\<close>

function find_fit_fallback :: "heap \<Rightarrow> 64 word \<Rightarrow> 64 word" where
  "find_fit_fallback s i =
     (if i < seglist_length
      then (if get_root s i \<noteq> 0 then get_root s i else find_fit_fallback s (i + 1))
      else 0)"
  by pat_completeness auto
termination
proof (relation "measure (\<lambda>(s, i). 15 - unat i)")
  show "wf (measure (\<lambda>(s :: heap, i :: 64 word). 15 - unat i))" by simp
next
  fix s :: heap and i :: "64 word"
  assume "i < seglist_length"
  then have "unat i < 15" by (simp add: seglist_length_def word_less_nat_alt)
  moreover from this have "unat (i + 1) = unat i + 1"
    by (simp add: unat_word_ariths)
  ultimately show "((s, i + 1), (s, i)) \<in> measure (\<lambda>(s, i). 15 - unat i)"
    by simp
qed

declare find_fit_fallback.simps [simp del]

definition find_fit :: "heap \<Rightarrow> 64 word \<Rightarrow> 64 word option" where
  "find_fit s asize =
     (let seglist_ind = get_seglist_ind asize
      in case find_fit_loop s asize (get_root s seglist_ind) 0 0 of
           None \<Rightarrow> None
         | Some (True, minb) \<Rightarrow> Some minb
         | Some (False, minb) \<Rightarrow>
             if minb = 0 then Some (find_fit_fallback s (seglist_ind + 1)) else Some minb)"

section \<open>The public operations\<close>

definition update_next :: "64 word \<Rightarrow> bool \<Rightarrow> heap \<Rightarrow> heap" where
  "update_next block alloc s =
     (let next_block = find_next s block;
          s1 = set_prev_alloc next_block alloc s
      in if \<not> alloc \<and> \<not> get_mini s1 block then write_footer block s1 else s1)"

definition free_root_init :: "heap \<Rightarrow> heap" where
  "free_root_init s = s\<lparr>free_root := (\<lambda>i. if i < 15 then 0 else free_root s i)\<rparr>"

definition mm_init :: "heap \<Rightarrow> bool \<times> heap" where
  "mm_init s =
     (let (start, s1) = mem_sbrk (2 * wsize) s;
          s2 = free_root_init s1
      in if start = - 1 then (False, s2)
         else
           (let s3 = store_word start (pack 0 True True) s2;
                s4 = store_word (start + 8) (pack 0 True True) s3;
                s5 = s4\<lparr>heap_start := start + 8\<rparr>;
                (block, s6) = extend_heap chunksize s5
            in if block = 0 then (False, s6) else (True, s6)))"

definition malloc :: "64 word \<Rightarrow> heap \<Rightarrow> (64 word \<times> heap) option" where
  "malloc sz s =
     (let s0 = (if heap_start s = 0 then snd (mm_init s) else s)
      in if sz = 0 then Some (0, s0)
         else
           (let asize = max_c (round_up (sz + wsize) dsize) min_block_size
            in case find_fit s0 asize of
                 None \<Rightarrow> None
               | Some found \<Rightarrow>
                   (let (block, s1) =
                          (if found = 0 then extend_heap (max_c asize chunksize) s0
                           else (found, s0))
                    in if block = 0 then Some (0, s1)
                       else
                         (let s2 = remove_from_free block s1;
                              block_size = get_size s2 block;
                              s3 = write_block block block_size True True s2;
                              s4 = split_block block asize s3;
                              s5 = update_next block True s4
                          in Some (header_to_payload block, s5)))))"

definition free :: "64 word \<Rightarrow> heap \<Rightarrow> heap" where
  "free bp s =
     (if bp = 0 then s
      else
        (let block = payload_to_header bp;
             sz = get_size s block;
             prev_alloc = get_prev_alloc s block;
             s1 = write_block block sz False prev_alloc s;
             s2 = add_to_free block s1;
             (block', s3) = coalesce_block block s2
         in update_next block' False s3))"

text \<open>
  The C library's \<open>memcpy\<close> and \<open>memset\<close> on the arena: \<open>n\<close> bytes starting at the
  destination are replaced.
\<close>

definition memcpy :: "64 word \<Rightarrow> 64 word \<Rightarrow> 64 word \<Rightarrow> heap \<Rightarrow> heap" where
  "memcpy dst src n s =
     s\<lparr>mem := (\<lambda>a. if a - dst < n then mem s (src + (a - dst)) else mem s a)\<rparr>"




section \<open>Specification-level notions\<close>

text \<open>Addresses and sizes of the abstract view are natural numbers; \<open>wa\<close> is the
  machine word of a natural number.\<close>

definition wa :: "nat \<Rightarrow> 64 word" where
  "wa n = of_nat n"

text \<open>The bucket formula in the words of the specification:
  \<open>clamp (floor (log2 (size / 16))) 0 (bucket_count - 1)\<close>.\<close>

definition clamp :: "int \<Rightarrow> int \<Rightarrow> int \<Rightarrow> int" where
  "clamp x lo hi = max lo (min x hi)"

text \<open>The size class of a block size, on natural numbers.\<close>

definition bucket :: "nat \<Rightarrow> nat" where
  "bucket n = (if n \<le> 16 then 0 else min (floorlog 2 (n div 16) - 1) 14)"

text \<open>A free mini block at address 4104 as \<open>write_block\<close> leaves it, before it is linked:
  the header is \<open>pack 16 False True\<close>.\<close>

definition mini_fresh :: heap where
  "mini_fresh = \<lparr>mem = store64 (\<lambda>_. 0) 4104 (pack 16 False True), heap_start = 4104,
     free_root = (\<lambda>_. 0), mem_brk = 8208, mem_max_addr = 8208\<rparr>"

datatype blk = Blk (addr: nat) (bsz: nat) (alc: bool) (pal: bool)

fun chain :: "nat \<Rightarrow> blk list \<Rightarrow> nat \<Rightarrow> bool" where
  "chain a [] e = (a = e)"
| "chain a (b # bs) e = (addr b = a \<and> 16 \<le> bsz b \<and> 16 dvd bsz b \<and> chain (a + bsz b) bs e)"

fun pa_cons :: "bool \<Rightarrow> blk list \<Rightarrow> bool \<Rightarrow> bool" where
  "pa_cons p [] e = (e = p)"
| "pa_cons p (b # bs) e = (pal b = p \<and> pa_cons (alc b) bs e)"

fun no_adj :: "blk list \<Rightarrow> bool" where
  "no_adj (b # c # bs) = ((alc b \<or> alc c) \<and> no_adj (c # bs))"
| "no_adj [b] = True"
| "no_adj [] = True"

definition hd0 :: "nat list \<Rightarrow> nat" where
  "hd0 xs = (case xs of [] \<Rightarrow> 0 | x # _ \<Rightarrow> x)"

fun next_in :: "nat list \<Rightarrow> nat \<Rightarrow> nat" where
  "next_in [] a = 0"
| "next_in (x # xs) a = (if x = a then hd0 xs else next_in xs a)"

fun prev_in :: "nat list \<Rightarrow> nat \<Rightarrow> nat" where
  "prev_in [] a = 0"
| "prev_in (x # xs) a = (if x = a then 0 else if hd0 xs = a then x else prev_in xs a)"

definition rd :: "heap \<Rightarrow> nat \<Rightarrow> 64 word" where
  "rd s a = load64 (mem s) (wa a)"

definition cellp :: "nat \<Rightarrow> bool" where
  "cellp x \<longleftrightarrow> 8 dvd x \<and> x + 8 \<le> 2 ^ 64"

definition hdr_ok :: "64 word \<Rightarrow> blk \<Rightarrow> bool" where
  "hdr_ok h b \<longleftrightarrow>
     extract_alloc h = alc b \<and> extract_prev_alloc h = pal b \<and>
     extract_mini h = (bsz b = 16) \<and> (bsz b \<noteq> 16 \<longrightarrow> extract_size h = wa (bsz b))"

definition ftr_ok :: "heap \<Rightarrow> blk \<Rightarrow> bool" where
  "ftr_ok s b \<longleftrightarrow> (\<not> alc b \<and> bsz b \<noteq> 16 \<longrightarrow>
      \<not> extract_mini (rd s (addr b + bsz b - 8)) \<and>
      extract_size (rd s (addr b + bsz b - 8)) = wa (bsz b))"

definition lnk_ok :: "heap \<Rightarrow> nat list \<Rightarrow> blk \<Rightarrow> bool" where
  "lnk_ok s xs b \<longleftrightarrow> (addr b \<in> set xs \<longrightarrow>
      rd s (addr b + 8) AND NOT 7 = wa (next_in xs (addr b)) \<and>
      (if bsz b = 16
       then rd s (addr b) AND NOT 7 = wa (prev_in xs (addr b)) \<and> extract_mini (rd s (addr b + 8))
       else rd s (addr b + 16) = wa (prev_in xs (addr b))))"

definition block_ok :: "heap \<Rightarrow> (nat \<Rightarrow> nat list) \<Rightarrow> blk \<Rightarrow> bool" where
  "block_ok s F b \<longleftrightarrow>
     hdr_ok (rd s (addr b)) b \<and> ftr_ok s b \<and> lnk_ok s (F (bucket (bsz b))) b"

definition lists_ok :: "blk list \<Rightarrow> (nat \<Rightarrow> nat list) \<Rightarrow> bool" where
  "lists_ok bs F \<longleftrightarrow>
     (\<forall>i<15. distinct (F i) \<and>
        (\<forall>a \<in> set (F i). \<exists>b \<in> set bs. addr b = a \<and> \<not> alc b \<and> bucket (bsz b) = i))"

definition epi_ok :: "64 word \<Rightarrow> bool \<Rightarrow> bool" where
  "epi_ok h epa \<longleftrightarrow>
     extract_alloc h \<and> \<not> extract_mini h \<and> extract_size h = 0 \<and> extract_prev_alloc h = epa"

definition heap_wf :: "heap \<Rightarrow> blk list \<Rightarrow> (nat \<Rightarrow> nat list) \<Rightarrow> bool" where
  "heap_wf s bs F \<longleftrightarrow>
     unat (heap_start s) mod 16 = 8 \<and>
     unat (heap_start s) + 8 \<le> unat (mem_brk s) \<and>
     unat (mem_brk s) \<le> unat (mem_max_addr s) \<and>
     chain (unat (heap_start s)) bs (unat (mem_brk s) - 8) \<and>
     (\<forall>b \<in> set bs. block_ok s F b) \<and>
     lists_ok bs F \<and>
     (\<forall>i<15. free_root s i = wa (hd0 (F i)))"

definition heap_ok :: "heap \<Rightarrow> blk list \<Rightarrow> (nat \<Rightarrow> nat list) \<Rightarrow> bool \<Rightarrow> bool" where
  "heap_ok s bs F epa \<longleftrightarrow>
     heap_wf s bs F \<and> epi_ok (rd s (unat (mem_brk s) - 8)) epa"

fun upd_pa :: "bool \<Rightarrow> blk list \<Rightarrow> blk list" where
  "upd_pa p [] = []"
| "upd_pa p (n # ys) = Blk (addr n) (bsz n) (alc n) p # ys"

definition split_blks :: "nat \<Rightarrow> nat \<Rightarrow> nat \<Rightarrow> blk list" where
  "split_blks a sz asize =
     (if 16 \<le> sz - asize
      then [Blk a asize True True, Blk (a + asize) (sz - asize) False True]
      else [Blk a sz True True])"

definition all_listed :: "blk list \<Rightarrow> (nat \<Rightarrow> nat list) \<Rightarrow> bool" where
  "all_listed bs F \<longleftrightarrow> (\<forall>c \<in> set bs. \<not> alc c \<longrightarrow> addr c \<in> set (F (bucket (bsz c))))"

definition clo :: "blk list \<Rightarrow> blk \<Rightarrow> nat" where
  "clo xs b = (if pal b then addr b else addr (last xs))"

definition chi :: "blk \<Rightarrow> blk list \<Rightarrow> nat" where
  "chi b ys = (case ys of [] \<Rightarrow> addr b + bsz b
               | n # t \<Rightarrow> if alc n then addr b + bsz b else addr n + bsz n)"

definition cpre :: "blk list \<Rightarrow> blk \<Rightarrow> blk list" where
  "cpre xs b = (if pal b then xs else butlast xs)"

definition cpost :: "blk list \<Rightarrow> blk list" where
  "cpost ys = (case ys of [] \<Rightarrow> [] | n # t \<Rightarrow> if alc n then ys else t)"

definition cblk :: "blk list \<Rightarrow> blk \<Rightarrow> blk list \<Rightarrow> blk" where
  "cblk xs b ys = Blk (clo xs b) (chi b ys - clo xs b) False True"

definition hinv :: "heap \<Rightarrow> blk list \<Rightarrow> (nat \<Rightarrow> nat list) \<Rightarrow> bool \<Rightarrow> bool" where
  "hinv s bs F epa \<longleftrightarrow>
     heap_ok s bs F epa \<and> all_listed bs F \<and> pa_cons True bs epa \<and> no_adj bs"

definition free_blks :: "blk list \<Rightarrow> blk \<Rightarrow> blk list \<Rightarrow> blk list" where
  "free_blks xs b ys =
     (let b1 = Blk (addr b) (bsz b) False (pal b)
      in cpre xs b1 @ cblk xs b1 ys # upd_pa False (cpost ys))"

definition free_epa :: "blk list \<Rightarrow> bool \<Rightarrow> bool" where
  "free_epa ys epa = (if cpost ys = [] then False else epa)"

definition allocd :: "blk list \<Rightarrow> nat set" where
  "allocd bs = {a. \<exists>c \<in> set bs. alc c \<and> addr c = a}"

definition good_fit :: "heap \<Rightarrow> nat \<Rightarrow> nat list \<Rightarrow> 64 word \<Rightarrow> bool" where
  "good_fit s n l r \<longleftrightarrow> (\<exists>a \<in> set l. r = wa a \<and> n \<le> unat (get_size s (wa a)))"

definition place_blks :: "blk list \<Rightarrow> nat \<Rightarrow> nat \<Rightarrow> nat \<Rightarrow> blk list \<Rightarrow> blk list" where
  "place_blks xs a sz n ys =
     (if 16 \<le> sz - n
      then xs @ [Blk a n True True, Blk (a + n) (sz - n) False True] @ ys
      else xs @ Blk a sz True True # upd_pa True ys)"

definition place_epa :: "nat \<Rightarrow> nat \<Rightarrow> blk list \<Rightarrow> bool \<Rightarrow> bool" where
  "place_epa sz n ys epa = (if 16 \<le> sz - n then epa else if ys = [] then True else epa)"

definition place :: "64 word \<Rightarrow> 64 word \<Rightarrow> heap \<Rightarrow> heap" where
  "place blk asz st =
     (let s2 = remove_from_free blk st;
          s3 = write_block blk (get_size s2 blk) True True s2;
          s4 = split_block blk asz s3
      in update_next blk True s4)"

definition adjusted :: "64 word \<Rightarrow> nat" where
  "adjusted sz = unat (max_c (round_up (sz + wsize) dsize) min_block_size)"

definition grow_by :: "64 word \<Rightarrow> nat" where
  "grow_by sz = unat (max_c (max_c (round_up (sz + wsize) dsize) min_block_size) chunksize)"

text \<open>Two concrete arenas, zero-filled and not yet initialised: one with room for exactly the
  prologue, the epilogue and the first chunk, one with room for further growth.\<close>

definition arena_small :: heap where
  "arena_small = \<lparr>mem = (\<lambda>_. 0), heap_start = 0, free_root = (\<lambda>_. 0), mem_brk = 4096,
     mem_max_addr = 8208\<rparr>"

definition arena_large :: heap where
  "arena_large = \<lparr>mem = (\<lambda>_. 0), heap_start = 0, free_root = (\<lambda>_. 0), mem_brk = 4096,
     mem_max_addr = 65536\<rparr>"

text \<open>The heaps that \<open>mm_init\<close> makes of the two arenas, and the small one after
  \<open>malloc 4088\<close> has taken its only block.\<close>

definition small_init :: heap where
  "small_init = snd (mm_init arena_small)"

definition large_init :: heap where
  "large_init = snd (mm_init arena_large)"

definition full_ptr :: "64 word" where
  "full_ptr = fst (the (malloc 4088 small_init))"

definition full_heap :: heap where
  "full_heap = snd (the (malloc 4088 small_init))"









section \<open>Words and bits\<close>

lemma bit_7_int: "bit (7 :: int) n \<longleftrightarrow> n < 3"
proof -
  have "(7 :: int) = mask 3" by (simp add: mask_eq_exp_minus_1)
  then show ?thesis by (simp only: bit_mask_iff) auto
qed

lemma bit_15_int: "bit (15 :: int) n \<longleftrightarrow> n < 4"
proof -
  have "(15 :: int) = mask 4" by (simp add: mask_eq_exp_minus_1)
  then show ?thesis by (simp only: bit_mask_iff) auto
qed

lemma bit_4_int: "bit (4 :: int) n \<longleftrightarrow> n = 2"
proof -
  have "(4 :: int) = 2 ^ 2" by simp
  then show ?thesis by (simp only: bit_exp_iff) auto
qed

lemma bit_2_int: "bit (2 :: int) n \<longleftrightarrow> n = 1"
  by (auto simp add: bit_2_iff)

lemma bit_1_int: "bit (1 :: int) n \<longleftrightarrow> n = 0"
  by (simp add: bit_1_iff)

lemma bit_16_int: "bit (16 :: int) n \<longleftrightarrow> n = 4"
proof -
  have "(16 :: int) = 2 ^ 4" by simp
  then show ?thesis by (simp only: bit_exp_iff) auto
qed

lemmas bit_consts = bit_7_int bit_15_int bit_4_int bit_2_int bit_1_int bit_16_int

lemma word_neq_0_bit: "(x :: 64 word) \<noteq> 0 \<longleftrightarrow> (\<exists>n. bit x n)"
proof
  assume "x \<noteq> 0"
  show "\<exists>n. bit x n"
  proof (rule ccontr)
    assume "\<not> (\<exists>n. bit x n)"
    then have "x = 0" by (intro bit_word_eqI) simp
    with \<open>x \<noteq> 0\<close> show False by simp
  qed
next
  assume "\<exists>n. bit x n"
  then show "x \<noteq> 0" by auto
qed

lemma bit_two: "bit (w :: 64 word) (Suc (Suc 0)) = bit w 2"
  by (simp add: numeral_2_eq_2)

lemma extract_mini_bit: "extract_mini w \<longleftrightarrow> bit w 2"
proof -
  have "bit (drop_bit 2 (w AND 4)) n \<longleftrightarrow> n = 0 \<and> bit w 2" for n
    by (auto simp add: bit_simps bit_consts bit_two)
  then have "(\<exists>n. bit (drop_bit 2 (w AND 4)) n) \<longleftrightarrow> bit w 2" by blast
  then show ?thesis
    by (simp only: extract_mini_def mini_mask_def word_neq_0_bit)
qed

lemma extract_alloc_bit: "extract_alloc w \<longleftrightarrow> bit w 0"
  unfolding extract_alloc_def alloc_mask_def word_neq_0_bit
  by (auto simp add: bit_simps bit_consts)

lemma extract_prev_alloc_bit: "extract_prev_alloc w \<longleftrightarrow> bit w 1"
  unfolding extract_prev_alloc_def alloc_prev_mask_def word_neq_0_bit
  by (auto simp add: bit_simps bit_consts)


section \<open>Loading and storing words\<close>

lemma store64_bytes:
  "store64 m a v a = ucast v"
  "store64 m a v (a + 1) = ucast (drop_bit 8 v)"
  "store64 m a v (a + 2) = ucast (drop_bit 16 v)"
  "store64 m a v (a + 3) = ucast (drop_bit 24 v)"
  "store64 m a v (a + 4) = ucast (drop_bit 32 v)"
  "store64 m a v (a + 5) = ucast (drop_bit 40 v)"
  "store64 m a v (a + 6) = ucast (drop_bit 48 v)"
  "store64 m a v (a + 7) = ucast (drop_bit 56 v)"
  by (simp_all add: store64_def)

lemma bit_ucast_byte:
  "bit (ucast (b :: 8 word) :: 64 word) k \<longleftrightarrow> k < 8 \<and> bit b k"
  by (auto simp add: bit_ucast_iff dest: bit_imp_le_length)

lemma bit_push_byte:
  "j + 8 \<le> 64 \<Longrightarrow> bit (push_bit j (ucast (b :: 8 word) :: 64 word)) n
      \<longleftrightarrow> j \<le> n \<and> n < j + 8 \<and> bit b (n - j)"
  by (auto simp add: bit_push_bit_iff bit_ucast_byte)

lemma bit_load64:
  "bit (load64 m a) n \<longleftrightarrow>
     (n < 8 \<and> bit (m a) n) \<or> (8 \<le> n \<and> n < 16 \<and> bit (m (a + 1)) (n - 8))
   \<or> (16 \<le> n \<and> n < 24 \<and> bit (m (a + 2)) (n - 16))
   \<or> (24 \<le> n \<and> n < 32 \<and> bit (m (a + 3)) (n - 24))
   \<or> (32 \<le> n \<and> n < 40 \<and> bit (m (a + 4)) (n - 32))
   \<or> (40 \<le> n \<and> n < 48 \<and> bit (m (a + 5)) (n - 40))
   \<or> (48 \<le> n \<and> n < 56 \<and> bit (m (a + 6)) (n - 48))
   \<or> (56 \<le> n \<and> n < 64 \<and> bit (m (a + 7)) (n - 56))"
  unfolding load64_def bit_or_iff
  by (simp add: bit_push_byte bit_ucast_byte)

lemma bit_ucast_drop:
  "bit (ucast (drop_bit j (v :: 64 word)) :: 8 word) k \<longleftrightarrow> k < 8 \<and> bit v (j + k)"
  by (auto simp add: bit_ucast_iff bit_drop_bit_eq ac_simps dest: bit_imp_le_length)

lemma load64_store64_same: "load64 (store64 m a v) a = v"
proof (rule bit_word_eqI)
  fix n assume n: "n < LENGTH(64)"
  have c: "n < 8 \<or> (8 \<le> n \<and> n < 16) \<or> (16 \<le> n \<and> n < 24) \<or> (24 \<le> n \<and> n < 32)
    \<or> (32 \<le> n \<and> n < 40) \<or> (40 \<le> n \<and> n < 48) \<or> (48 \<le> n \<and> n < 56) \<or> (56 \<le> n \<and> n < 64)"
    using n by simp linarith
  have u0: "bit (ucast v :: 8 word) k \<longleftrightarrow> k < 8 \<and> bit v k" for k
    using bit_ucast_drop[of 0 v k] by simp
  show "bit (load64 (store64 m a v) a) n = bit v n"
    unfolding bit_load64 store64_bytes bit_ucast_drop u0
    using c by (elim disjE) auto
qed

lemma load64_cong:
  assumes "\<And>k. k < 8 \<Longrightarrow> m' (a + of_nat k) = m (a + of_nat k)"
  shows "load64 m' a = load64 m a"
proof -
  have "m' (a + of_nat 0) = m (a + of_nat 0)" "m' (a + of_nat 1) = m (a + of_nat 1)"
    "m' (a + of_nat 2) = m (a + of_nat 2)" "m' (a + of_nat 3) = m (a + of_nat 3)"
    "m' (a + of_nat 4) = m (a + of_nat 4)" "m' (a + of_nat 5) = m (a + of_nat 5)"
    "m' (a + of_nat 6) = m (a + of_nat 6)" "m' (a + of_nat 7) = m (a + of_nat 7)"
    by (rule assms, simp)+
  then show ?thesis by (simp add: load64_def)
qed

lemma store64_other:
  assumes "\<And>k. k < 8 \<Longrightarrow> x \<noteq> a + of_nat k"
  shows "store64 m a v x = m x"
proof -
  have "x \<noteq> a + of_nat 0" "x \<noteq> a + of_nat 1" "x \<noteq> a + of_nat 2" "x \<noteq> a + of_nat 3"
    "x \<noteq> a + of_nat 4" "x \<noteq> a + of_nat 5" "x \<noteq> a + of_nat 6" "x \<noteq> a + of_nat 7"
    by (rule assms, simp)+
  then show ?thesis by (simp add: store64_def)
qed

lemma wa_inj: "a < 2 ^ 64 \<Longrightarrow> b < 2 ^ 64 \<Longrightarrow> wa a = wa b \<longleftrightarrow> a = b"
  by (simp add: wa_def word_of_nat_eq_iff take_bit_nat_eq_self)

lemma unat_wa: "a < 2 ^ 64 \<Longrightarrow> unat (wa a) = a"
  by (simp add: wa_def unat_of_nat)

lemma wa_add: "wa a + wa b = wa (a + b)"
  by (simp add: wa_def)

lemma wa_sub: "b \<le> a \<Longrightarrow> wa a - wa b = wa (a - b)"
  by (simp add: wa_def)

lemma wa_unat: "wa (unat w) = w"
  by (simp add: wa_def)

lemma load64_store64_disj:
  assumes "8 dvd x" "8 dvd c" "x \<noteq> c" "x + 8 \<le> 2 ^ 64" "c + 8 \<le> 2 ^ 64"
  shows "load64 (store64 m (wa c) v) (wa x) = load64 m (wa x)"
proof (rule load64_cong)
  fix k :: nat assume k: "k < 8"
  show "store64 m (wa c) v (wa x + of_nat k) = m (wa x + of_nat k)"
  proof (rule store64_other)
    fix j :: nat assume j: "j < 8"
    have "x + k \<noteq> c + j"
    proof
      assume e: "x + k = c + j"
      then have "(x + k) div 8 = (c + j) div 8" by simp
      moreover have "(x + k) div 8 = x div 8" using k assms(1) by (auto elim!: dvdE)
      moreover have "(c + j) div 8 = c div 8" using j assms(2) by (auto elim!: dvdE)
      ultimately have "x div 8 = c div 8" by simp
      with assms(1,2) have "x = c" by (auto elim!: dvdE)
      with assms(3) show False by simp
    qed
    moreover have "x + k < 2 ^ 64" "c + j < 2 ^ 64" using k j assms(4,5) by simp_all
    ultimately have "wa (x + k) \<noteq> wa (c + j)" by (simp add: wa_inj)
    then show "wa x + of_nat k \<noteq> wa c + of_nat j" by (simp add: wa_def)
  qed
qed

section \<open>Size classes\<close>

lemma low3_or_size: "((h AND 7) OR p) AND NOT 15 = p AND NOT (15 :: 64 word)"
  by (rule bit_word_eqI) (auto simp add: bit_simps bit_consts)

text \<open>
  Claim C10. Whenever the mini bit (bit 2) of a block's header is set, \<open>get_size\<close> returns
  the minimum block size 16, whatever the other bits of the header are. On such a block
  \<open>set_prev_free\<close> replaces the header by its three flag bits joined with the predecessor
  pointer, so the size bits of the new header are those of the pointer and no longer encode
  the size; the mini bit is kept and \<open>get_size\<close> still returns 16.
\<close>

theorem get_size_mini:
  assumes "bit (get_header s block) 2"
  shows "get_size s block = 16
       \<and> get_header (set_prev_free block prev s) block = (get_header s block AND 7) OR prev
       \<and> extract_size (get_header (set_prev_free block prev s) block) = prev AND NOT 15
       \<and> get_size (set_prev_free block prev s) block = 16
       \<and> bit (get_header (set_prev_free block prev s) block) 2"
proof -
  have m: "get_mini s block" using assms by (simp add: get_mini_def extract_mini_bit)
  have h: "get_header (set_prev_free block prev s) block = (get_header s block AND 7) OR prev"
    using m by (simp add: set_prev_free_def put_header_def store_word_def get_header_def
        load64_store64_same)
  have b: "bit ((get_header s block AND 7) OR prev) 2"
    using assms by (simp add: bit_simps bit_consts)
  have e: "extract_size ((get_header s block AND 7) OR prev) = prev AND NOT 15"
    unfolding extract_size_def size_mask_def by (rule low3_or_size)
  show ?thesis using assms b e
    by (simp add: get_size_def extract_mini_bit h const_defs)
qed

theorem get_size_mini_witness:
  "bit (get_header mini_fresh 4104) 2
   \<and> get_header mini_fresh 4104 = 0x16
   \<and> get_size mini_fresh 4104 = 16
   \<and> get_header (set_prev_free 4104 4136 mini_fresh) 4104 = 0x102E
   \<and> extract_size (get_header (set_prev_free 4104 4136 mini_fresh) 4104) = 4128
   \<and> get_size (set_prev_free 4104 4136 mini_fresh) 4104 = 16
   \<and> bit (get_header (set_prev_free 4104 4136 mini_fresh) 4104) 2"
proof -
  have p: "pack 16 False True = 0x16"
    by (simp add: pack_def const_defs)
  have h: "get_header mini_fresh 4104 = 0x16"
    by (simp add: get_header_def mini_fresh_def load64_store64_same p)
  have b: "bit (get_header mini_fresh 4104) 2"
    unfolding h by (simp add: bit_numeral_word_iff bit_consts bit_two)
  have v: "((0x16 :: 64 word) AND 7) OR 4136 = 0x102E" "(4136 :: 64 word) AND NOT 15 = 4128"
    by simp_all
  show ?thesis using b h get_size_mini [OF b, of 4136, unfolded h v] by blast
qed

lemma seglist_count_floorlog:
  "seglist_count i c = c + of_nat (floorlog 2 (unat i))"
proof (induction i c rule: seglist_count.induct)
  case (1 i count)
  show ?case
  proof (cases "i = 0")
    case True
    then show ?thesis by (simp add: seglist_count.simps floorlog_def)
  next
    case False
    then have pos: "0 < unat i" by (simp add: unat_gt_0)
    have u: "unat (drop_bit 1 i) = unat i div 2"
      by (simp add: unat_drop_bit_eq drop_bit_eq_div unat_div)
    have f: "floorlog 2 (unat i) = floorlog 2 (unat i div 2) + 1"
      using pos by (subst compute_floorlog) simp
    have "seglist_count i count = seglist_count (drop_bit 1 i) (count + 1)"
      using False by (subst seglist_count.simps) simp
    also have "\<dots> = count + 1 + of_nat (floorlog 2 (unat (drop_bit 1 i)))"
      using 1 False by simp
    finally show ?thesis unfolding u f by (simp add: algebra_simps)
  qed
qed

lemma unat_get_seglist_ind: "unat (get_seglist_ind sz) = bucket (unat sz)"
proof (cases "sz \<le> 16")
  case True
  then have "unat sz \<le> 16" by (simp add: word_le_nat_alt)
  then show ?thesis using True
    by (simp add: get_seglist_ind_def bucket_def min_c_def seglist_length_def)
next
  case False
  then have big: "16 < unat sz" by (simp add: word_le_nat_alt)
  define fl where "fl = floorlog 2 (unat sz div 16)"
  have d: "unat (drop_bit 4 sz) = unat sz div 16"
    by (simp add: unat_drop_bit_eq drop_bit_eq_div unat_div)
  have "unat sz < 2 ^ 64" using unsigned_less[of sz] by simp
  then have "unat sz div 16 < 2 ^ 60" by simp
  then have le: "fl \<le> 60" unfolding fl_def by (intro floorlog_leI) simp_all
  have "2 ^ 0 \<le> unat sz div 16" using big by simp
  then have "Suc 0 \<le> fl" unfolding fl_def by (intro floorlog_ge_SucI) simp_all
  then have ge: "1 \<le> fl" by simp
  have c: "seglist_count (drop_bit 4 sz) 0 = of_nat fl"
    by (simp add: seglist_count_floorlog d fl_def)
  have m: "(of_nat fl :: 64 word) - 1 = of_nat (fl - 1)" using ge by simp
  have u: "unat (of_nat (fl - 1) :: 64 word) = fl - 1"
    using le by (simp add: unat_of_nat)
  have r: "unat (min_c (of_nat (fl - 1)) (14 :: 64 word)) = min (fl - 1) 14"
    using u by (simp add: min_c_def word_less_nat_alt)
  have b: "bucket (unat sz) = min (fl - 1) 14"
    using big by (simp add: bucket_def fl_def)
  have "get_seglist_ind sz = min_c (of_nat (fl - 1)) 14"
    using False by (simp add: get_seglist_ind_def c m seglist_length_def)
  then show ?thesis using r b by simp
qed

lemma bucket_mono: "m \<le> n \<Longrightarrow> bucket m \<le> bucket n"
proof -
  assume mn: "m \<le> n"
  have "floorlog 2 (m div 16) \<le> floorlog 2 (n div 16)"
    using mn by (intro floorlog_mono div_le_mono)
  then have "floorlog 2 (m div 16) - 1 \<le> floorlog 2 (n div 16) - 1"
    by (rule diff_le_mono)
  then show ?thesis using mn by (simp add: bucket_def) linarith
qed

lemma bucket_le: "bucket n \<le> 14"
  by (simp add: bucket_def)

lemma bucket_16: "bucket 16 = 0"
  by (simp add: bucket_def)

lemma bucket_zero_iff: "16 \<le> n \<Longrightarrow> 16 dvd n \<Longrightarrow> bucket n = 0 \<longleftrightarrow> n = 16"
proof -
  assume n: "16 \<le> n" "16 dvd n"
  show ?thesis
  proof (cases "n = 16")
    case True then show ?thesis by (simp add: bucket_def)
  next
    case False
    with n have "32 \<le> n" by (auto elim!: dvdE)
    then have "2 ^ 1 \<le> n div 16" by simp
    then have "Suc 1 \<le> floorlog 2 (n div 16)" by (intro floorlog_ge_SucI) simp_all
    then show ?thesis using False \<open>32 \<le> n\<close> by (simp add: bucket_def)
  qed
qed

text \<open>
  Claim C5. For every size that is a positive multiple of 16, \<open>get_seglist_ind\<close> returns
  \<open>clamp (floor (log2 (size / 16))) 0 14\<close>; a block of exactly the minimum size 16 is
  classified into bucket 0.
\<close>

theorem get_seglist_ind_formula:
  assumes "sz \<noteq> 0" and "16 dvd unat sz"
  shows "int (unat (get_seglist_ind sz)) = clamp \<lfloor>log 2 (real (unat sz) / 16)\<rfloor> 0 14
       \<and> get_seglist_ind 16 = 0"
proof -
  define n where "n = unat sz div 16"
  have pos: "0 < unat sz" using assms(1) by (simp add: unat_gt_0)
  have n16: "unat sz = 16 * n" using assms(2) by (auto simp add: n_def)
  have npos: "0 < n" using pos n16 by simp
  have r: "real (unat sz) / 16 = real n" using n16 by simp
  have fl: "floorlog 2 n = nat \<lfloor>log 2 (real n)\<rfloor> + 1"
    using npos by (simp add: floorlog_def)
  have nonneg: "0 \<le> \<lfloor>log 2 (real n)\<rfloor>" using npos by simp
  have "int (bucket (unat sz)) = clamp \<lfloor>log 2 (real n)\<rfloor> 0 14"
  proof (cases "unat sz \<le> 16")
    case True
    then have "n = 1" using n16 npos by simp
    then show ?thesis using True by (simp add: bucket_def clamp_def)
  next
    case False
    have g: "int (min (nat k) 14) = max 0 (min k 14)" if "0 \<le> k" for k :: int
      using that by auto
    have "bucket (unat sz) = min (nat \<lfloor>log 2 (real n)\<rfloor>) 14"
      using False by (simp add: bucket_def fl n_def[symmetric])
    then show ?thesis using g[OF nonneg] by (simp only: clamp_def)
  qed
  moreover have "unat (get_seglist_ind 16) = 0"
    by (simp add: unat_get_seglist_ind bucket_def)
  then have "get_seglist_ind 16 = 0" by (simp add: unat_eq_0)
  ultimately show ?thesis by (simp only: unat_get_seglist_ind r)
qed

theorem get_seglist_ind_formula_witness:
  "(4096 :: 64 word) \<noteq> 0 \<and> 16 dvd unat (4096 :: 64 word)
   \<and> int (unat (get_seglist_ind 4096)) = clamp \<lfloor>log 2 (real (unat (4096 :: 64 word)) / 16)\<rfloor> 0 14
   \<and> get_seglist_ind 16 = 0"
proof -
  have h1: "(4096 :: 64 word) \<noteq> 0" by simp
  have h2: "16 dvd unat (4096 :: 64 word)" by simp
  show ?thesis using h1 h2 get_seglist_ind_formula [OF h1 h2] by blast
qed

lemma hd0_simps [simp]: "hd0 [] = 0" "hd0 (x # xs) = x"
  by (simp_all add: hd0_def)

lemma mem_pos: "a \<in> set xs \<Longrightarrow> 0 \<notin> set xs \<Longrightarrow> 0 < (a :: nat)"
  by (rule ccontr) auto

lemma hd0_in: "0 < hd0 xs \<Longrightarrow> hd0 xs \<in> set xs"
  by (cases xs) auto

lemma hd0_nonzero: "xs \<noteq> [] \<Longrightarrow> 0 \<notin> set xs \<Longrightarrow> hd0 xs \<noteq> 0"
  by (cases xs) auto

lemma next_in_mem: "0 < next_in xs a \<Longrightarrow> next_in xs a \<in> set xs"
  by (induction xs) (auto simp add: hd0_in split: if_splits)

lemma prev_in_mem: "0 < prev_in xs a \<Longrightarrow> prev_in xs a \<in> set xs"
  by (induction xs) (auto split: if_splits)

lemma next_in_notin: "a \<notin> set xs \<Longrightarrow> next_in xs a = 0"
  by (induction xs) auto

lemma prev_in_notin: "a \<notin> set xs \<Longrightarrow> 0 < a \<Longrightarrow> prev_in xs a = 0"
proof (induction xs)
  case Nil
  then show ?case by simp
next
  case (Cons y ys)
  have "hd0 ys \<noteq> a" using hd0_in[of ys] Cons.prems by auto
  then show ?case using Cons by simp
qed

lemma next_in_neq: "distinct xs \<Longrightarrow> 0 < a \<Longrightarrow> next_in xs a \<noteq> a"
proof (induction xs)
  case Nil
  then show ?case by simp
next
  case (Cons y ys)
  show ?case
  proof (cases "y = a")
    case True
    then have "hd0 ys \<noteq> a" using hd0_in[of ys] Cons.prems by auto
    then show ?thesis using True by simp
  next
    case False
    then show ?thesis using Cons by simp
  qed
qed

lemma prev_in_neq: "0 < a \<Longrightarrow> prev_in xs a \<noteq> a"
  by (induction xs) auto

lemma prev_in_zero_iff:
  "a \<in> set xs \<Longrightarrow> 0 \<notin> set xs \<Longrightarrow> prev_in xs a = 0 \<longleftrightarrow> hd0 xs = a"
  by (induction xs) auto

lemma next_prev:
  "distinct xs \<Longrightarrow> 0 \<notin> set xs \<Longrightarrow> x \<in> set xs \<Longrightarrow> a \<in> set xs \<Longrightarrow>
     next_in xs x = a \<longleftrightarrow> prev_in xs a = x"
proof (induction xs)
  case Nil
  then show ?case by simp
next
  case (Cons y ys)
  have pos: "0 < a" "0 < x" using Cons.prems by (auto intro: mem_pos)
  show ?case
  proof (cases "y = x")
    case True
    show ?thesis
    proof (cases ys)
      case Nil
      then show ?thesis using Cons.prems True by auto
    next
      case (Cons z zs)
      have "prev_in (z # zs) a \<noteq> x"
        using prev_in_mem[of "z # zs" a] Cons.prems True Cons by auto
      then show ?thesis using Cons.prems True Cons
        by auto
    qed
  next
    case False
    then have xin: "x \<in> set ys" using Cons.prems by simp
    show ?thesis
    proof (cases "y = a")
      case True
      have "next_in ys x \<noteq> a"
        using next_in_mem[of ys x] Cons.prems True by auto
      then show ?thesis using True False pos by auto
    next
      case False2: False
      then have ain: "a \<in> set ys" using Cons.prems by simp
      have ih: "next_in ys x = a \<longleftrightarrow> prev_in ys a = x"
        using Cons.IH Cons.prems xin ain by simp
      show ?thesis
      proof (cases "hd0 ys = a")
        case True
        then have "prev_in ys a = 0" using ain Cons.prems by (simp add: prev_in_zero_iff)
        then show ?thesis using False False2 True ih xin Cons.prems by auto
      next
        case False3: False
        then show ?thesis using False False2 ih by simp
      qed
    qed
  qed
qed

lemma hd0_remove1:
  "distinct xs \<Longrightarrow> hd0 (remove1 a xs) = (if hd0 xs = a \<and> xs \<noteq> [] then next_in xs a else hd0 xs)"
  by (cases xs) auto

lemma next_in_remove1:
  "distinct xs \<Longrightarrow> 0 \<notin> set xs \<Longrightarrow> a \<in> set xs \<Longrightarrow> x \<noteq> a \<Longrightarrow>
   next_in (remove1 a xs) x = (if next_in xs x = a then next_in xs a else next_in xs x)"
proof (induction xs)
  case Nil
  then show ?case by simp
next
  case (Cons y ys)
  show ?case
  proof (cases "y = a")
    case True
    have "next_in ys x \<noteq> a" using next_in_mem[of ys x] Cons.prems True by auto
    then show ?thesis using True Cons.prems by auto
  next
    case False
    then have ain: "a \<in> set ys" using Cons.prems by simp
    show ?thesis
    proof (cases "y = x")
      case True
      then show ?thesis using False Cons.prems ain
        by (auto simp add: hd0_remove1)
    next
      case False2: False
      then show ?thesis using False Cons.IH Cons.prems ain by auto
    qed
  qed
qed

lemma prev_in_remove1:
  "distinct xs \<Longrightarrow> 0 \<notin> set xs \<Longrightarrow> a \<in> set xs \<Longrightarrow> x \<noteq> a \<Longrightarrow> x \<in> set xs \<Longrightarrow>
   prev_in (remove1 a xs) x = (if prev_in xs x = a then prev_in xs a else prev_in xs x)"
proof (induction xs)
  case Nil
  then show ?case by simp
next
  case (Cons y ys)
  show ?case
  proof (cases "y = a")
    case True
    then have xin: "x \<in> set ys" using Cons.prems by auto
    have "prev_in ys x \<noteq> a" using prev_in_mem[of ys x] Cons.prems True by auto
    then show ?thesis using True Cons.prems xin
      by (auto simp add: prev_in_zero_iff)
  next
    case False
    then have ain: "a \<in> set ys" using Cons.prems by simp
    show ?thesis
    proof (cases "y = x")
      case True
      have "0 < a" "0 < x" using Cons.prems by (auto intro: mem_pos)
      then show ?thesis using True False by auto
    next
      case False2: False
      then have xin: "x \<in> set ys" using Cons.prems by simp
      have ih: "prev_in (remove1 a ys) x = (if prev_in ys x = a then prev_in ys a else prev_in ys x)"
        using Cons.IH Cons.prems ain xin False2 by simp
      show ?thesis
      proof (cases "hd0 ys = a")
        case True
        then have pa: "prev_in ys a = 0" using ain Cons.prems by (simp add: prev_in_zero_iff)
        have nx: "next_in ys a = x \<longleftrightarrow> prev_in ys x = a"
          using next_prev[of ys a x] Cons.prems ain xin by simp
        show ?thesis using True False False2 ih pa nx Cons.prems ain xin
          by (auto simp add: hd0_remove1)
      next
        case False3: False
        then show ?thesis using False False2 ih Cons.prems ain
          by (auto simp add: hd0_remove1)
      qed
    qed
  qed
qed

lemma low_bits_dvd: "2 ^ k dvd (m :: nat) \<Longrightarrow> n < k \<Longrightarrow> \<not> bit m n"
proof
  assume d: "2 ^ k dvd m" and n: "n < k" and b: "bit m n"
  have "take_bit k m = 0" using d by (simp add: take_bit_eq_0_iff)
  moreover have "bit (take_bit k m) n" using n b by (simp add: bit_take_bit_iff)
  ultimately show False by simp
qed

lemma bit_wa_low8: "8 dvd p \<Longrightarrow> n < 3 \<Longrightarrow> \<not> bit (wa p) n"
  using low_bits_dvd[of 3 p n] by (simp add: wa_def bit_of_nat_iff)

lemma bit_wa_low16: "16 dvd p \<Longrightarrow> n < 4 \<Longrightarrow> \<not> bit (wa p) n"
  using low_bits_dvd[of 4 p n] by (simp add: wa_def bit_of_nat_iff)

lemma wa_eq_16: "sz < 2 ^ 64 \<Longrightarrow> wa sz = 16 \<longleftrightarrow> sz = 16"
proof -
  assume "sz < 2 ^ 64"
  then have "wa sz = wa 16 \<longleftrightarrow> sz = 16" by (intro wa_inj) simp_all
  then show ?thesis by (simp add: wa_def)
qed

lemma wa_eq_0: "sz < 2 ^ 64 \<Longrightarrow> wa sz = 0 \<longleftrightarrow> sz = 0"
proof -
  assume "sz < 2 ^ 64"
  then have "wa sz = wa 0 \<longleftrightarrow> sz = 0" by (intro wa_inj) simp_all
  then show ?thesis by (simp add: wa_def)
qed

lemma wa_numeral [simp]: "wa (numeral n) = numeral n" "wa 0 = 0"
  by (simp_all add: wa_def)

lemma extract_size_low: "(\<And>n. n < 4 \<Longrightarrow> \<not> bit w n) \<Longrightarrow> extract_size w = w"
  unfolding extract_size_def size_mask_def
  by (rule bit_word_eqI) (auto simp add: bit_simps bit_consts)

lemma min_block_size_16: "min_block_size = 16"
  by (simp add: const_defs)

lemma bits_pack_aux:
  "bit ((let w0 = (w :: 64 word);
          w1 = (if al then w0 OR 1 else w0);
          w2 = (if pa then w1 OR 2 else w1);
          w3 = (if m then w2 OR 4 else w2)
      in w3)) n \<longleftrightarrow>
     bit w n \<or> (n = 0 \<and> al) \<or> (n = 1 \<and> pa) \<or> (n = 2 \<and> m)"
  by (auto simp add: Let_def bit_simps bit_consts)

lemma bits_pack:
  "bit (pack w al pa) n \<longleftrightarrow>
     bit w n \<or> (n = 0 \<and> al) \<or> (n = 1 \<and> pa) \<or> (n = 2 \<and> w = 16)"
  unfolding pack_def min_block_size_16 alloc_mask_def alloc_prev_mask_def mini_mask_def
  by (rule bits_pack_aux)

lemma bit_16_word: "bit (16 :: 64 word) n \<longleftrightarrow> n = 4"
  by (simp add: bit_numeral_word_iff bit_consts) auto

lemma hdr_ok_pack:
  assumes "16 dvd sz" "sz < 2 ^ 64"
  shows "hdr_ok (pack (wa sz) al pa) (Blk a sz al pa)"
proof -
  have low: "\<not> bit (wa sz) n" if "n < 4" for n using bit_wa_low16[OF assms(1) that] .
  have e: "wa sz = 16 \<longleftrightarrow> sz = 16" using assms(2) by (rule wa_eq_16)
  have sz: "pack (wa sz) al pa AND NOT 15 = wa sz" if "sz \<noteq> 16"
    using low that e by (intro bit_word_eqI) (auto simp add: bit_simps bit_consts bits_pack)
  show ?thesis
    using low[of 0] low[of 1] low[of 2] e sz
    by (auto simp add: hdr_ok_def extract_alloc_bit extract_prev_alloc_bit extract_mini_bit
        bits_pack extract_size_def size_mask_def)
qed

lemma hdr_ok_set_pa:
  assumes "hdr_ok h b"
  shows "hdr_ok (h OR alloc_prev_mask) (Blk (addr b) (bsz b) (alc b) True)"
    and "hdr_ok (h AND NOT alloc_prev_mask) (Blk (addr b) (bsz b) (alc b) False)"
proof -
  have 1: "(h OR 2) AND NOT 15 = h AND NOT 15" "(h AND NOT 2) AND NOT 15 = h AND NOT 15"
    by (rule bit_word_eqI; auto simp add: bit_simps bit_consts)+
  show "hdr_ok (h OR alloc_prev_mask) (Blk (addr b) (bsz b) (alc b) True)"
    using assms 1
    by (auto simp add: hdr_ok_def extract_alloc_bit extract_prev_alloc_bit extract_mini_bit
        extract_size_def const_defs bit_simps bit_consts)
  show "hdr_ok (h AND NOT alloc_prev_mask) (Blk (addr b) (bsz b) (alc b) False)"
    using assms 1
    by (auto simp add: hdr_ok_def extract_alloc_bit extract_prev_alloc_bit extract_mini_bit
        extract_size_def const_defs bit_simps bit_consts)
qed

lemma mini_link_header:
  assumes "8 dvd p"
  shows "((h AND 7) OR wa p) AND NOT 7 = wa p"
    and "extract_alloc ((h AND 7) OR wa p) = extract_alloc h"
    and "extract_prev_alloc ((h AND 7) OR wa p) = extract_prev_alloc h"
    and "extract_mini ((h AND 7) OR wa p) = extract_mini h"
proof -
  have low: "\<not> bit (wa p) n" if "n < 3" for n using bit_wa_low8[OF assms that] .
  show "((h AND 7) OR wa p) AND NOT 7 = wa p"
    using low by (intro bit_word_eqI) (auto simp add: bit_simps bit_consts)
  show "extract_alloc ((h AND 7) OR wa p) = extract_alloc h"
    using low[of 0] by (simp add: extract_alloc_bit bit_simps bit_consts)
  show "extract_prev_alloc ((h AND 7) OR wa p) = extract_prev_alloc h"
    using low[of 1] by (simp add: extract_prev_alloc_bit bit_simps bit_consts)
  show "extract_mini ((h AND 7) OR wa p) = extract_mini h"
    using low[of 2] by (simp add: extract_mini_bit bit_simps bit_consts)
qed

lemma link_word:
  assumes "8 dvd p"
  shows "(wa p OR mini_mask) AND NOT 7 = wa p"
    and "extract_mini (wa p OR mini_mask)"
    and "wa p AND NOT 7 = wa p"
proof -
  have low: "\<not> bit (wa p) n" if "n < 3" for n using bit_wa_low8[OF assms that] .
  show "(wa p OR mini_mask) AND NOT 7 = wa p"
    using low by (intro bit_word_eqI) (auto simp add: mini_mask_def bit_simps bit_consts)
  show "extract_mini (wa p OR mini_mask)"
    by (simp add: extract_mini_bit mini_mask_def bit_simps bit_consts)
  show "wa p AND NOT 7 = wa p"
    using low by (intro bit_word_eqI) (auto simp add: bit_simps bit_consts)
qed

lemma chain_append:
  "chain a (xs @ ys) e \<longleftrightarrow> (\<exists>m. chain a xs m \<and> chain m ys e)"
  by (induction xs arbitrary: a) auto

lemma chain_le: "chain a bs e \<Longrightarrow> a \<le> e"
proof (induction bs arbitrary: a)
  case Nil
  then show ?case by simp
next
  case (Cons b bs)
  then have "a + bsz b \<le> e" by simp
  then show ?case by simp
qed

lemma chain_end_unique: "chain a bs e \<Longrightarrow> chain a bs e' \<Longrightarrow> e = e'"
  by (induction bs arbitrary: a) auto

lemma chain_mem:
  "chain a bs e \<Longrightarrow> b \<in> set bs \<Longrightarrow>
     a \<le> addr b \<and> addr b + bsz b \<le> e \<and> 16 \<le> bsz b \<and> 16 dvd bsz b \<and> 16 dvd (addr b - a)"
proof (induction bs arbitrary: a)
  case Nil
  then show ?case by simp
next
  case (Cons c cs)
  show ?case
  proof (cases "b = c")
    case True
    then show ?thesis using Cons.prems chain_le[of "a + bsz c" cs e] by auto
  next
    case False
    then have "b \<in> set cs" using Cons.prems by simp
    then have ih: "a + bsz c \<le> addr b \<and> addr b + bsz b \<le> e \<and> 16 \<le> bsz b \<and> 16 dvd bsz b
        \<and> 16 dvd (addr b - (a + bsz c))"
      using Cons.IH[of "a + bsz c"] Cons.prems by simp
    have "addr b - a = (addr b - (a + bsz c)) + bsz c" using ih by simp
    moreover have "16 dvd bsz c" using Cons.prems by simp
    ultimately have "16 dvd (addr b - a)" using ih by (simp only: dvd_add)
    then show ?thesis using ih by simp
  qed
qed

lemma chain_split:
  "chain a (xs @ b # ys) e \<longleftrightarrow>
     chain a xs (addr b) \<and> 16 \<le> bsz b \<and> 16 dvd bsz b \<and> chain (addr b + bsz b) ys e"
  by (auto simp add: chain_append)

lemma chain_before:
  "chain a xs m \<Longrightarrow> c \<in> set xs \<Longrightarrow> addr c + bsz c \<le> m"
  using chain_mem by blast

lemma chain_after:
  "chain m ys e \<Longrightarrow> c \<in> set ys \<Longrightarrow> m \<le> addr c"
  using chain_mem by blast

lemma chain_disjoint:
  "chain a bs e \<Longrightarrow> b \<in> set bs \<Longrightarrow> c \<in> set bs \<Longrightarrow> b \<noteq> c \<Longrightarrow>
     addr b + bsz b \<le> addr c \<or> addr c + bsz c \<le> addr b"
proof (induction bs arbitrary: a)
  case Nil
  then show ?case by simp
next
  case (Cons d ds)
  have ch: "chain (a + bsz d) ds e" and ad: "addr d = a" using Cons.prems by simp_all
  show ?case
  proof (cases "b = d")
    case True
    then have "c \<in> set ds" using Cons.prems by auto
    then have "a + bsz d \<le> addr c" using chain_after[OF ch] by simp
    then show ?thesis using True ad by simp
  next
    case False
    then have bin: "b \<in> set ds" using Cons.prems by simp
    show ?thesis
    proof (cases "c = d")
      case True
      have "a + bsz d \<le> addr b" using chain_after[OF ch bin] .
      then show ?thesis using True ad by simp
    next
      case False
      then have "c \<in> set ds" using Cons.prems by simp
      then show ?thesis using Cons.IH[OF ch bin] Cons.prems by simp
    qed
  qed
qed

lemma chain_addr_inj:
  assumes "chain a bs e" "b \<in> set bs" "c \<in> set bs" "addr b = addr c"
  shows "b = c"
proof (rule ccontr)
  assume "b \<noteq> c"
  then have "addr b + bsz b \<le> addr c \<or> addr c + bsz c \<le> addr b"
    using chain_disjoint[OF assms(1-3)] by simp
  moreover have "16 \<le> bsz b" "16 \<le> bsz c" using chain_mem[OF assms(1)] assms(2,3) by auto
  ultimately show False using assms(4) by auto
qed

lemma cellpI: "8 dvd x \<Longrightarrow> x + 8 \<le> 2 ^ 64 \<Longrightarrow> cellp x"
  by (simp add: cellp_def)

lemma rd_store_word:
  assumes "cellp x" "cellp c"
  shows "rd (store_word (wa c) v s) x = (if x = c then v else rd s x)"
proof (cases "x = c")
  case True
  then show ?thesis by (simp add: rd_def store_word_def load64_store64_same)
next
  case False
  then show ?thesis using assms
    by (simp add: rd_def store_word_def cellp_def load64_store64_disj)
qed

lemma store_word_fields [simp]:
  "heap_start (store_word p v s) = heap_start s"
  "free_root (store_word p v s) = free_root s"
  "mem_brk (store_word p v s) = mem_brk s"
  "mem_max_addr (store_word p v s) = mem_max_addr s"
  by (simp_all add: store_word_def)

lemma set_root_fields [simp]:
  "heap_start (set_root i v s) = heap_start s"
  "mem (set_root i v s) = mem s"
  "mem_brk (set_root i v s) = mem_brk s"
  "mem_max_addr (set_root i v s) = mem_max_addr s"
  "free_root (set_root i v s) = (free_root s)(unat i := v)"
  by (simp_all add: set_root_def)

lemma rd_set_root [simp]: "rd (set_root i v s) x = rd s x"
  by (simp add: rd_def)

text \<open>The geometry of a well-formed heap.\<close>

lemma unat_lt64: "unat (w :: 64 word) < 2 ^ 64"
  using unsigned_less[of w] by simp

lemma mod16_shift:
  assumes "16 dvd (x - h)" "h \<le> x" "h mod 16 = 8"
  shows "x mod 16 = (8 :: nat)"
proof -
  obtain k where k: "x - h = 16 * k" using assms(1) by (auto elim: dvdE)
  then have "x = 16 * k + h" using assms(2) by simp
  then show ?thesis using assms(3) by simp
qed

lemma mod16_8_dvd: "x mod 16 = 8 \<Longrightarrow> 8 dvd (x :: nat)"
proof -
  assume a: "x mod 16 = 8"
  have "x = 16 * (x div 16) + x mod 16" by simp
  then have "x = 8 * (2 * (x div 16) + 1)" using a by simp
  then show ?thesis by (metis dvd_triv_left)
qed

lemma heap_wf_geom:
  assumes "heap_wf s bs F" "b \<in> set bs"
  shows "unat (heap_start s) \<le> addr b" "addr b + bsz b + 8 \<le> unat (mem_brk s)"
    "16 \<le> bsz b" "16 dvd bsz b" "addr b mod 16 = 8" "8 dvd addr b"
    "addr b + bsz b + 8 \<le> 2 ^ 64" "0 < addr b" "bsz b < 2 ^ 64" "addr b < 2 ^ 64"
proof -
  define hs bk where "hs = unat (heap_start s)" and "bk = unat (mem_brk s)"
  have ch: "chain hs bs (bk - 8)" and m: "hs mod 16 = 8" and le: "hs + 8 \<le> bk"
    using assms(1) by (simp_all add: heap_wf_def hs_def bk_def)
  have g: "hs \<le> addr b" "addr b + bsz b \<le> bk - 8" "16 \<le> bsz b" "16 dvd bsz b"
      "16 dvd (addr b - hs)"
    using chain_mem[OF ch assms(2)] by simp_all
  show "unat (heap_start s) \<le> addr b" "16 \<le> bsz b" "16 dvd bsz b"
    using g by (simp_all add: hs_def)
  have e: "addr b + bsz b + 8 \<le> bk" using g(2) le by linarith
  then show "addr b + bsz b + 8 \<le> unat (mem_brk s)" by (simp add: bk_def)
  show a16: "addr b mod 16 = 8" using mod16_shift[OF g(5) g(1) m] .
  then show "8 dvd addr b" by (rule mod16_8_dvd)
  have "bk < 2 ^ 64" unfolding bk_def by (rule unat_lt64)
  then show 64: "addr b + bsz b + 8 \<le> 2 ^ 64" using e by linarith
  show "bsz b < 2 ^ 64" "addr b < 2 ^ 64" using 64 by linarith+
  show "0 < addr b" using a16 by (cases "addr b") simp_all
qed

lemma heap_wf_cellp:
  assumes "heap_wf s bs F" "b \<in> set bs" "8 dvd x" "x < addr b + bsz b"
  shows "cellp x"
proof -
  have "addr b + bsz b + 8 \<le> 2 ^ 64" using heap_wf_geom(7)[OF assms(1,2)] .
  then show ?thesis using assms(3,4) by (simp add: cellp_def)
qed

lemma chain_end_dvd: "chain a bs e \<Longrightarrow> 16 dvd (e - a)"
proof (induction bs arbitrary: a)
  case Nil
  then show ?case by simp
next
  case (Cons b bs)
  then have ih: "16 dvd (e - (a + bsz b))" and d: "16 dvd bsz b" and c: "chain (a + bsz b) bs e"
    by simp_all
  have "a + bsz b \<le> e" using chain_le[OF c] .
  then have "e - a = (e - (a + bsz b)) + bsz b" by simp
  then show ?case using ih d by (simp only: dvd_add)
qed

lemma heap_wf_epi_cellp:
  assumes "heap_wf s bs F"
  shows "cellp (unat (mem_brk s) - 8)" "8 \<le> unat (mem_brk s)" "unat (mem_brk s) mod 16 = 0"
proof -
  let ?hs = "unat (heap_start s)" and ?bk = "unat (mem_brk s)"
  have ch: "chain ?hs bs (?bk - 8)" and m: "?hs mod 16 = 8" and le: "?hs + 8 \<le> ?bk"
    using assms(1) by (simp_all add: heap_wf_def)
  show 8: "8 \<le> ?bk" using le by simp
  have d: "16 dvd (?bk - 8 - ?hs)" using chain_end_dvd[OF ch] .
  have "?hs \<le> ?bk - 8" using le by linarith
  then have m8: "(?bk - 8) mod 16 = 8" using mod16_shift[OF d _ m] by simp
  have "?bk = (?bk - 8) + 8" using 8 by simp
  then have "?bk mod 16 = ((?bk - 8) mod 16 + 8) mod 16" by (metis mod_add_left_eq)
  then show z: "?bk mod 16 = 0" using m8 by simp
  have "?bk < 2 ^ 64" by (rule unat_lt64)
  moreover have "8 dvd (?bk - 8)" using m8 by (rule mod16_8_dvd)
  ultimately show "cellp (?bk - 8)" using 8 by (simp add: cellp_def)
qed

lemma wa_plus_numeral: "wa a + numeral n = wa (a + numeral n)"
  by (simp add: wa_def)

lemma wa_minus_numeral: "numeral n \<le> a \<Longrightarrow> wa a - numeral n = wa (a - numeral n)"
  by (simp add: wa_def)

lemmas wa_simps = wa_plus_numeral wa_add wa_minus_numeral wa_sub

lemma get_header_wa: "get_header s (wa a) = rd s a"
  by (simp add: get_header_def rd_def)

lemma get_successor_wa: "get_successor s (wa a) = rd s (a + 8)"
  by (simp add: get_successor_def rd_def wa_simps)

lemma get_predecessor_wa: "get_predecessor s (wa a) = rd s (a + 16)"
  by (simp add: get_predecessor_def rd_def wa_simps)

lemma put_header_wa: "put_header (wa a) v s = store_word (wa a) v s"
  by (simp add: put_header_def)

lemma put_successor_wa: "put_successor (wa a) v s = store_word (wa (a + 8)) v s"
  by (simp add: put_successor_def wa_simps)

lemma put_predecessor_wa: "put_predecessor (wa a) v s = store_word (wa (a + 16)) v s"
  by (simp add: put_predecessor_def wa_simps)

lemmas field_wa = get_header_wa get_successor_wa get_predecessor_wa
  put_header_wa put_successor_wa put_predecessor_wa

lemma hdr_ok_reads:
  assumes "hdr_ok (rd s a) b"
  shows "get_size s (wa a) = wa (bsz b)" "get_alloc s (wa a) = alc b"
    "get_prev_alloc s (wa a) = pal b" "get_mini s (wa a) = (bsz b = 16)"
  using assms
  by (auto simp add: hdr_ok_def get_size_def get_alloc_def get_prev_alloc_def get_mini_def
      get_header_wa min_block_size_16)

lemma cellp_add8: "cellp x \<Longrightarrow> x + 16 \<le> 2 ^ 64 \<Longrightarrow> cellp (x + 8)"
  by (simp add: cellp_def)

lemma block_ok_frame:
  assumes ok: "block_ok s F b"
    and mem: "\<And>x. 8 dvd x \<Longrightarrow> addr b \<le> x \<Longrightarrow> x < addr b + bsz b \<Longrightarrow> rd s' x = rd s x"
    and geom: "16 \<le> bsz b" "16 dvd bsz b" "8 dvd addr b"
    and lnk: "addr b \<in> set (F' (bucket (bsz b))) \<Longrightarrow>
        addr b \<in> set (F (bucket (bsz b))) \<and>
        next_in (F' (bucket (bsz b))) (addr b) = next_in (F (bucket (bsz b))) (addr b) \<and>
        prev_in (F' (bucket (bsz b))) (addr b) = prev_in (F (bucket (bsz b))) (addr b)"
  shows "block_ok s' F' b"
proof -
  have r0: "rd s' (addr b) = rd s (addr b)" using mem[of "addr b"] geom by simp
  have r8: "rd s' (addr b + 8) = rd s (addr b + 8)" using mem[of "addr b + 8"] geom by simp
  have big: "32 \<le> bsz b" if "bsz b \<noteq> 16"
    using that geom(1,2) by (auto elim!: dvdE)
  have r16: "rd s' (addr b + 16) = rd s (addr b + 16)" if "bsz b \<noteq> 16"
    using mem[of "addr b + 16"] geom big[OF that] by simp
  have "8 dvd bsz b" using geom(2) by (auto elim!: dvdE)
  then have "8 dvd (addr b + bsz b - 8)" using geom(1,3) by (simp add: dvd_diff_nat)
  then have rf: "rd s' (addr b + bsz b - 8) = rd s (addr b + bsz b - 8)"
    using mem[of "addr b + bsz b - 8"] geom by simp
  have h: "hdr_ok (rd s' (addr b)) b" using ok r0 by (simp add: block_ok_def)
  have f: "ftr_ok s' b" using ok rf by (simp add: block_ok_def ftr_ok_def)
  have l: "lnk_ok s' (F' (bucket (bsz b))) b"
  proof (cases "addr b \<in> set (F' (bucket (bsz b)))")
    case True
    note L = lnk[OF True]
    have "lnk_ok s (F (bucket (bsz b))) b" using ok by (simp add: block_ok_def)
    then show ?thesis using L r0 r8 r16 True
      by (auto simp add: lnk_ok_def)
  next
    case False
    then show ?thesis by (simp add: lnk_ok_def)
  qed
  show ?thesis using h f l by (simp add: block_ok_def)
qed

lemma set_prev_free_fields [simp]:
  "heap_start (set_prev_free p q s) = heap_start s"
  "free_root (set_prev_free p q s) = free_root s"
  "mem_brk (set_prev_free p q s) = mem_brk s"
  "mem_max_addr (set_prev_free p q s) = mem_max_addr s"
  by (simp_all add: set_prev_free_def put_header_def put_predecessor_def)

lemma set_next_free_fields [simp]:
  "heap_start (set_next_free p q s) = heap_start s"
  "free_root (set_next_free p q s) = free_root s"
  "mem_brk (set_next_free p q s) = mem_brk s"
  "mem_max_addr (set_next_free p q s) = mem_max_addr s"
  by (simp_all add: set_next_free_def put_successor_def Let_def)

lemma set_prev_alloc_fields [simp]:
  "heap_start (set_prev_alloc p q s) = heap_start s"
  "free_root (set_prev_alloc p q s) = free_root s"
  "mem_brk (set_prev_alloc p q s) = mem_brk s"
  "mem_max_addr (set_prev_alloc p q s) = mem_max_addr s"
  by (simp_all add: set_prev_alloc_def put_header_def)

lemma write_block_fields [simp]:
  "heap_start (write_block p z al pa s) = heap_start s"
  "free_root (write_block p z al pa s) = free_root s"
  "mem_brk (write_block p z al pa s) = mem_brk s"
  "mem_max_addr (write_block p z al pa s) = mem_max_addr s"
  by (simp_all add: write_block_def put_header_def Let_def)

lemma write_footer_fields [simp]:
  "heap_start (write_footer p s) = heap_start s"
  "free_root (write_footer p s) = free_root s"
  "mem_brk (write_footer p s) = mem_brk s"
  "mem_max_addr (write_footer p s) = mem_max_addr s"
  by (simp_all add: write_footer_def)

lemma write_epilogue_fields [simp]:
  "heap_start (write_epilogue p s) = heap_start s"
  "free_root (write_epilogue p s) = free_root s"
  "mem_brk (write_epilogue p s) = mem_brk s"
  "mem_max_addr (write_epilogue p s) = mem_max_addr s"
  by (simp_all add: write_epilogue_def put_header_def)


lemma rd_set_next_free:
  assumes "hdr_ok (rd s a) b" "cellp a" "cellp (a + 8)" "cellp x"
  shows "rd (set_next_free (wa a) q s) x =
     (if x = a + 8 then (if bsz b = 16 then q OR mini_mask else q) else rd s x)"
proof -
  let ?s1 = "store_word (wa (a + 8)) q s"
  have h1: "rd ?s1 a = rd s a" using assms by (simp add: rd_store_word)
  then have m: "get_mini ?s1 (wa a) = (bsz b = 16)"
    using hdr_ok_reads(4)[of ?s1 a b] assms(1) by simp
  have s1: "rd ?s1 (a + 8) = q" using assms by (simp add: rd_store_word)
  show ?thesis using assms m s1
    by (simp add: set_next_free_def field_wa Let_def rd_store_word)
qed

lemma rd_set_prev_alloc:
  assumes "cellp a" "cellp x"
  shows "rd (set_prev_alloc (wa a) p s) x =
     (if x = a then (if p then rd s a OR alloc_prev_mask else rd s a AND NOT alloc_prev_mask)
      else rd s x)"
  using assms by (simp add: set_prev_alloc_def field_wa rd_store_word)

lemma links_decomp:
  "distinct xs \<Longrightarrow> a \<in> set xs \<Longrightarrow> 0 \<notin> set xs \<Longrightarrow>
   \<exists>ys zs. xs = ys @ a # zs \<and> prev_in xs a = (if ys = [] then 0 else last ys) \<and>
     next_in xs a = hd0 zs"
proof (induction xs)
  case Nil
  then show ?case by simp
next
  case (Cons y ys)
  show ?case
  proof (cases "y = a")
    case True
    then have "y # ys = [] @ a # ys \<and> prev_in (y # ys) a = (if [] = ([] :: nat list) then 0 else last [])
        \<and> next_in (y # ys) a = hd0 ys" by simp
    then show ?thesis by blast
  next
    case False
    then have "a \<in> set ys" using Cons.prems by simp
    then obtain us zs where d: "ys = us @ a # zs"
        "prev_in ys a = (if us = [] then 0 else last us)" "next_in ys a = hd0 zs"
      using Cons.IH Cons.prems by auto
    have "prev_in (y # ys) a = (if y # us = [] then 0 else last (y # us))"
    proof (cases us)
      case Nil
      then show ?thesis using d False by simp
    next
      case (Cons u us')
      have "hd0 ys \<noteq> a" using d Cons Cons.prems \<open>distinct (y # ys)\<close> by auto
      then show ?thesis using d False Cons by simp
    qed
    moreover have "next_in (y # ys) a = hd0 zs" using d False by simp
    moreover have "y # ys = (y # us) @ a # zs" using d by simp
    ultimately show ?thesis by blast
  qed
qed

lemma prev_neq_next:
  assumes "distinct xs" "a \<in> set xs" "0 \<notin> set xs" "0 < prev_in xs a"
  shows "prev_in xs a \<noteq> next_in xs a"
proof -
  obtain ys zs where d: "xs = ys @ a # zs"
      "prev_in xs a = (if ys = [] then 0 else last ys)" "next_in xs a = hd0 zs"
    using links_decomp[OF assms(1-3)] by blast
  have ne: "ys \<noteq> []" using d(2) assms(4) by auto
  then have l: "last ys \<in> set ys" by simp
  have p: "prev_in xs a = last ys" using d(2) ne by simp
  have h: "hd0 zs \<in> set zs \<or> hd0 zs = 0" using hd0_in[of zs] by auto
  have dis: "set ys \<inter> set zs = {}" using assms(1) d(1) by auto
  show ?thesis
  proof
    assume "prev_in xs a = next_in xs a"
    then have e: "last ys = hd0 zs" using p d(3) by simp
    then have "hd0 zs \<noteq> 0" using assms(4) p by simp
    then have "hd0 zs \<in> set zs" using h by simp
    then show False using l e dis by auto
  qed
qed

lemma prev_prev_neq:
  assumes "distinct xs" "a \<in> set xs" "0 \<notin> set xs" "0 < prev_in xs a"
  shows "prev_in xs (prev_in xs a) \<noteq> a"
proof
  assume e: "prev_in xs (prev_in xs a) = a"
  have pin: "prev_in xs a \<in> set xs" using assms(4) by (rule prev_in_mem)
  have "next_in xs a = prev_in xs a"
    using next_prev[OF assms(1,3) assms(2) pin] e by simp
  then show False using prev_neq_next[OF assms] by simp
qed

lemma next_next_neq:
  assumes "distinct xs" "a \<in> set xs" "0 \<notin> set xs" "0 < next_in xs a"
  shows "next_in xs (next_in xs a) \<noteq> a"
proof
  assume e: "next_in xs (next_in xs a) = a"
  have nin: "next_in xs a \<in> set xs" using assms(4) by (rule next_in_mem)
  have "prev_in xs a = next_in xs a"
    using next_prev[OF assms(1,3) nin assms(2)] e by simp
  moreover have "0 < prev_in xs a" using calculation assms(4) by simp
  ultimately show False using prev_neq_next[OF assms(1-3)] by simp
qed

lemma next_of_prev:
  assumes "distinct xs" "a \<in> set xs" "0 \<notin> set xs" "0 < prev_in xs a"
  shows "next_in xs (prev_in xs a) = a"
  using next_prev[OF assms(1,3) prev_in_mem[OF assms(4)] assms(2)] by simp

lemma prev_of_next:
  assumes "distinct xs" "a \<in> set xs" "0 \<notin> set xs" "0 < next_in xs a"
  shows "prev_in xs (next_in xs a) = a"
  using next_prev[OF assms(1,3) assms(2) next_in_mem[OF assms(4)]] by simp

lemma heap_wf_listed:
  assumes "heap_wf s bs F" "i < 15" "a \<in> set (F i)"
  shows "\<exists>b \<in> set bs. addr b = a \<and> \<not> alc b \<and> bucket (bsz b) = i"
  using assms by (auto simp add: heap_wf_def lists_ok_def)

lemma heap_wf_zero_notin:
  assumes "heap_wf s bs F" "i < 15"
  shows "0 \<notin> set (F i)"
proof
  assume "0 \<in> set (F i)"
  then obtain b where b: "b \<in> set bs" "addr b = 0"
    using heap_wf_listed[OF assms] by blast
  show False using heap_wf_geom(8)[OF assms(1) b(1)] b(2) by simp
qed

lemma heap_wf_distinct:
  assumes "heap_wf s bs F" "i < 15"
  shows "distinct (F i)"
  using assms by (simp add: heap_wf_def lists_ok_def)

lemma heap_wf_block:
  assumes "heap_wf s bs F" "b \<in> set bs"
  shows "hdr_ok (rd s (addr b)) b" "ftr_ok s b" "lnk_ok s (F (bucket (bsz b))) b"
  using assms by (simp_all add: heap_wf_def block_ok_def)

lemma heap_wf_unique:
  assumes "heap_wf s bs F" "b \<in> set bs" "c \<in> set bs" "addr b = addr c"
  shows "b = c"
  using assms chain_addr_inj by (auto simp add: heap_wf_def)

lemma heap_wf_bucket0:
  assumes "heap_wf s bs F" "b \<in> set bs"
  shows "bucket (bsz b) = 0 \<longleftrightarrow> bsz b = 16"
  using heap_wf_geom(3,4)[OF assms] by (rule bucket_zero_iff)

lemma unat_seglist_ind_wa: "sz < 2 ^ 64 \<Longrightarrow> unat (get_seglist_ind (wa sz)) = bucket sz"
  by (simp add: unat_get_seglist_ind unat_wa)

lemma heap_wf_links:
  assumes ok: "heap_wf s bs F" and b: "b \<in> set bs"
    and inl: "addr b \<in> set (F (bucket (bsz b)))"
  shows "get_next_free s (wa (addr b)) = wa (next_in (F (bucket (bsz b))) (addr b))"
    "get_prev_free s (wa (addr b)) = wa (prev_in (F (bucket (bsz b))) (addr b))"
proof -
  note h = heap_wf_block[OF ok b]
  show "get_next_free s (wa (addr b)) = wa (next_in (F (bucket (bsz b))) (addr b))"
    using h(3) inl by (simp add: lnk_ok_def get_next_free_def field_wa)
  show "get_prev_free s (wa (addr b)) = wa (prev_in (F (bucket (bsz b))) (addr b))"
    using h(3) inl hdr_ok_reads(4)[OF h(1)]
    by (auto simp add: lnk_ok_def get_prev_free_def field_wa)
qed

lemma heap_wf_block_cells:
  assumes ok: "heap_wf s bs F" and b: "b \<in> set bs"
  shows "cellp (addr b)" "cellp (addr b + 8)" "bsz b \<noteq> 16 \<Longrightarrow> cellp (addr b + 16)"
    "cellp (addr b + bsz b - 8)" "bsz b \<noteq> 16 \<Longrightarrow> 32 \<le> bsz b"
proof -
  note g = heap_wf_geom[OF ok b]
  show "cellp (addr b)" "cellp (addr b + 8)" using g by (simp_all add: cellp_def)
  have d8: "8 dvd bsz b" using g(4) by (auto elim!: dvdE)
  then have "8 dvd (addr b + bsz b - 8)" using g(3,6) by (simp add: dvd_diff_nat)
  then show "cellp (addr b + bsz b - 8)" using g by (simp add: cellp_def)
  show big: "32 \<le> bsz b" if "bsz b \<noteq> 16" using that g(3,4) by (auto elim!: dvdE)
  show "cellp (addr b + 16)" if "bsz b \<noteq> 16" using big[OF that] g by (simp add: cellp_def)
qed

lemma heap_wf_sep:
  assumes ok: "heap_wf s bs F" and b: "b \<in> set bs" and c: "c \<in> set bs" and ne: "addr b \<noteq> addr c"
  shows "addr b + bsz b \<le> addr c \<or> addr c + bsz c \<le> addr b"
proof -
  have "chain (unat (heap_start s)) bs (unat (mem_brk s) - 8)" using ok by (simp add: heap_wf_def)
  moreover have "b \<noteq> c" using ne by auto
  ultimately show ?thesis using chain_disjoint b c by blast
qed

lemma remove_from_free_fields [simp]:
  "heap_start (remove_from_free p s) = heap_start s"
  "mem_brk (remove_from_free p s) = mem_brk s"
  "mem_max_addr (remove_from_free p s) = mem_max_addr s"
  by (simp_all add: remove_from_free_def Let_def)

lemma add_to_free_fields [simp]:
  "heap_start (add_to_free p s) = heap_start s"
  "mem_brk (add_to_free p s) = mem_brk s"
  "mem_max_addr (add_to_free p s) = mem_max_addr s"
  by (simp_all add: add_to_free_def Let_def)

lemma mod16_neq:
  assumes "x mod 16 = 8" "y mod 16 = 8"
  shows "x + 8 \<noteq> (y :: nat)" "x + 8 \<noteq> y + 16" "x \<noteq> y + 8" "x + 16 \<noteq> y + 8"
proof -
  have x: "x = 16 * (x div 16) + 8" using mult_div_mod_eq[of 16 x] assms(1) by simp
  have y: "y = 16 * (y div 16) + 8" using mult_div_mod_eq[of 16 y] assms(2) by simp
  have 1: "(x + 8) mod 16 = 0" by (subst x) simp
  have 2: "(y + 16) mod 16 = 8" using assms(2) by simp
  have 3: "(y + 8) mod 16 = 0" by (subst y) simp
  have 4: "(x + 16) mod 16 = 8" using assms(1) by simp
  show "x + 8 \<noteq> y" using 1 assms(2) by auto
  show "x + 8 \<noteq> y + 16" using 1 2 by auto
  show "x \<noteq> y + 8" using 3 assms(1) by auto
  show "x + 16 \<noteq> y + 8" using 3 4 by auto
qed

lemma remove_from_free_effect:
  assumes ok: "heap_wf s bs F" and b: "b \<in> set bs"
    and inl: "addr b \<in> set (F (bucket (bsz b)))"
  defines "xs \<equiv> F (bucket (bsz b))"
  defines "prv \<equiv> prev_in xs (addr b)" and "nxt \<equiv> next_in xs (addr b)"
  defines "s' \<equiv> remove_from_free (wa (addr b)) s"
  shows "free_root s' = (if prv = 0 then (free_root s)(bucket (bsz b) := wa nxt) else free_root s)"
    and "\<And>x. cellp x \<Longrightarrow> rd s' x =
      (if 0 < prv \<and> x = prv + 8 then (if bsz b = 16 then wa nxt OR mini_mask else wa nxt)
       else if 0 < nxt \<and> x = (if bsz b = 16 then nxt else nxt + 16)
         then (if bsz b = 16 then (rd s nxt AND 7) OR wa prv else wa prv)
       else rd s x)"
proof -
  define i where "i = bucket (bsz b)"
  have i15: "i < 15" using bucket_le[of "bsz b"] by (simp add: i_def)
  have xs: "xs = F i" by (simp add: xs_def i_def)
  have d: "distinct xs" and z: "0 \<notin> set xs"
    using heap_wf_distinct[OF ok i15] heap_wf_zero_notin[OF ok i15] by (simp_all add: xs)
  have ain: "addr b \<in> set xs" using inl by (simp add: xs_def)
  note g = heap_wf_geom[OF ok b]
  note h = heap_wf_block[OF ok b]
  have gp: "get_prev_free s (wa (addr b)) = wa prv" and gn: "get_next_free s (wa (addr b)) = wa nxt"
    using heap_wf_links[OF ok b inl] by (simp_all add: prv_def nxt_def xs_def)
  have ind: "unat (get_seglist_ind (get_size s (wa (addr b)))) = i"
    using hdr_ok_reads(1)[OF h(1)] g(9) by (simp add: unat_seglist_ind_wa i_def)
  have blk: "\<exists>c \<in> set bs. addr c = q \<and> \<not> alc c \<and> (bsz c = 16 \<longleftrightarrow> bsz b = 16)"
    if q: "q \<in> set xs" for q
  proof -
    obtain c where c: "c \<in> set bs" "addr c = q" "\<not> alc c" "bucket (bsz c) = i"
      using heap_wf_listed[OF ok i15, of q] q xs by blast
    have "bsz c = 16 \<longleftrightarrow> bsz b = 16"
      using heap_wf_bucket0[OF ok c(1)] heap_wf_bucket0[OF ok b] c(4) by (simp add: i_def)
    then show ?thesis using c by blast
  qed
  have pz: "wa prv = 0 \<longleftrightarrow> prv = 0"
  proof (cases "prv = 0")
    case False
    then have "prv \<in> set xs" using prev_in_mem[of xs "addr b"] by (simp add: prv_def)
    then obtain c where "c \<in> set bs" "addr c = prv" using blk by blast
    then have "prv < 2 ^ 64" using heap_wf_geom(10)[OF ok] by blast
    then show ?thesis by (rule wa_eq_0)
  qed simp
  have nz: "wa nxt = 0 \<longleftrightarrow> nxt = 0"
  proof (cases "nxt = 0")
    case False
    then have "nxt \<in> set xs" using next_in_mem[of xs "addr b"] by (simp add: nxt_def)
    then obtain c where "c \<in> set bs" "addr c = nxt" using blk by blast
    then have "nxt < 2 ^ 64" using heap_wf_geom(10)[OF ok] by blast
    then show ?thesis by (rule wa_eq_0)
  qed simp
  have unf: "s' =
     (if nxt = 0 \<and> prv = 0 then set_root (get_seglist_ind (get_size s (wa (addr b)))) 0 s
      else if nxt = 0 then set_next_free (wa prv) 0 s
      else if prv = 0 then set_root (get_seglist_ind (get_size s (wa (addr b)))) (wa nxt)
             (set_prev_free (wa nxt) 0 s)
      else set_prev_free (wa nxt) (wa prv) (set_next_free (wa prv) (wa nxt) s))"
    by (simp add: s'_def remove_from_free_def Let_def gp gn pz nz)
  show "free_root s' = (if prv = 0 then (free_root s)(bucket (bsz b) := wa nxt) else free_root s)"
    unfolding unf using ind by (auto simp add: i_def)
  fix x assume x: "cellp x"
  show "rd s' x =
      (if 0 < prv \<and> x = prv + 8 then (if bsz b = 16 then wa nxt OR mini_mask else wa nxt)
       else if 0 < nxt \<and> x = (if bsz b = 16 then nxt else nxt + 16)
         then (if bsz b = 16 then (rd s nxt AND 7) OR wa prv else wa prv)
       else rd s x)"
  proof (cases "prv = 0")
    case pT: True
    show ?thesis
    proof (cases "nxt = 0")
      case True
      then show ?thesis using pT by (simp add: unf)
    next
      case False
      then have "nxt \<in> set xs" using next_in_mem[of xs "addr b"] by (simp add: nxt_def)
      then obtain c where c: "c \<in> set bs" "addr c = nxt" "bsz c = 16 \<longleftrightarrow> bsz b = 16"
        using blk by blast
      note hc = heap_wf_block[OF ok c(1)] and cc = heap_wf_block_cells[OF ok c(1)]
      have "rd (set_prev_free (wa nxt) 0 s) x =
          (if bsz c = 16 then (if x = nxt then (rd s nxt AND 7) OR 0 else rd s x)
           else (if x = nxt + 16 then 0 else rd s x))"
      proof (cases "bsz c = 16")
        case True
        then show ?thesis using hc(1) hdr_ok_reads(4)[of s nxt c] c(2) cc(1) x
          by (simp add: set_prev_free_def field_wa rd_store_word)
      next
        case False
        then show ?thesis using hc(1) hdr_ok_reads(4)[of s nxt c] c(2) cc(3) x
          by (simp add: set_prev_free_def field_wa rd_store_word)
      qed
      then show ?thesis using pT False c(3) by (simp add: unf)
    qed
  next
    case pF: False
    then have "prv \<in> set xs" using prev_in_mem[of xs "addr b"] by (simp add: prv_def)
    then obtain p where p: "p \<in> set bs" "addr p = prv" "bsz p = 16 \<longleftrightarrow> bsz b = 16"
      using blk by blast
    note hp = heap_wf_block[OF ok p(1)] and cp = heap_wf_block_cells[OF ok p(1)]
      and gp' = heap_wf_geom[OF ok p(1)]
    have r1: "rd (set_next_free (wa prv) q s) y =
        (if y = prv + 8 then (if bsz b = 16 then q OR mini_mask else q) else rd s y)"
      if "cellp y" for q y
      using rd_set_next_free[of s prv p y q] hp(1) cp(1,2) p(2,3) that by simp
    show ?thesis
    proof (cases "nxt = 0")
      case True
      then show ?thesis using pF r1[OF x, of 0] by (simp add: unf)
    next
      case False
      then have "nxt \<in> set xs" using next_in_mem[of xs "addr b"] by (simp add: nxt_def)
      then obtain c where c: "c \<in> set bs" "addr c = nxt" "bsz c = 16 \<longleftrightarrow> bsz b = 16"
        using blk by blast
      note hc = heap_wf_block[OF ok c(1)] and cc = heap_wf_block_cells[OF ok c(1)]
        and gc = heap_wf_geom[OF ok c(1)]
      let ?s1 = "set_next_free (wa prv) (wa nxt) s"
      have ne: "prv + 8 \<noteq> nxt" "prv + 8 \<noteq> nxt + 16"
        using mod16_neq(1,2)[of prv nxt] gp'(5) gc(5) p(2) c(2) by simp_all
      have h1: "rd ?s1 nxt = rd s nxt" using r1[of nxt "wa nxt"] cc(1) c(2) ne by simp
      have e: "rd (set_prev_free (wa nxt) (wa prv) ?s1) x =
          (if bsz c = 16 then (if x = nxt then (rd ?s1 nxt AND 7) OR wa prv else rd ?s1 x)
           else (if x = nxt + 16 then wa prv else rd ?s1 x))"
      proof (cases "bsz c = 16")
        case True
        then show ?thesis using hc(1) h1 hdr_ok_reads(4)[of ?s1 nxt c] c(2) cc(1) x
          by (simp add: set_prev_free_def field_wa rd_store_word)
      next
        case False
        then show ?thesis using hc(1) h1 hdr_ok_reads(4)[of ?s1 nxt c] c(2) cc(3) x
          by (simp add: set_prev_free_def field_wa rd_store_word)
      qed
      have r1x: "rd ?s1 x =
          (if x = prv + 8 then (if bsz b = 16 then wa nxt OR mini_mask else wa nxt) else rd s x)"
        using r1[OF x] .
      have se: "rd s' x = rd (set_prev_free (wa nxt) (wa prv) ?s1) x"
        using pF False by (simp add: unf)
      show ?thesis unfolding se e h1 r1x using pF False c(3) ne by auto
    qed
  qed
qed

lemma remove_from_free_wf:
  assumes ok: "heap_wf s bs F" and b: "b \<in> set bs"
    and inl: "addr b \<in> set (F (bucket (bsz b)))"
  shows "heap_wf (remove_from_free (wa (addr b)) s) bs
     (F(bucket (bsz b) := remove1 (addr b) (F (bucket (bsz b)))))"
    and "rd (remove_from_free (wa (addr b)) s) (unat (mem_brk s) - 8) = rd s (unat (mem_brk s) - 8)"
proof -
  define i where "i = bucket (bsz b)"
  define xs where "xs = F i"
  define a where "a = addr b"
  define prv where "prv = prev_in xs a"
  define nxt where "nxt = next_in xs a"
  define s' where "s' = remove_from_free (wa a) s"
  define F' where "F' = F(i := remove1 a xs)"
  have i15: "i < 15" using bucket_le[of "bsz b"] by (simp add: i_def)
  have d: "distinct xs" and z: "0 \<notin> set xs"
    using heap_wf_distinct[OF ok i15] heap_wf_zero_notin[OF ok i15] by (simp_all add: xs_def)
  have ain: "a \<in> set xs" using inl by (simp add: xs_def i_def a_def)
  have apos: "0 < a" using ain z by (rule mem_pos)
  note gb = heap_wf_geom[OF ok b]
  have root: "free_root s' = (if prv = 0 then (free_root s)(i := wa nxt) else free_root s)"
    using remove_from_free_effect(1)[OF ok b inl]
    by (simp add: s'_def prv_def nxt_def xs_def i_def a_def)
  have eff: "rd s' x =
      (if 0 < prv \<and> x = prv + 8 then (if bsz b = 16 then wa nxt OR mini_mask else wa nxt)
       else if 0 < nxt \<and> x = (if bsz b = 16 then nxt else nxt + 16)
         then (if bsz b = 16 then (rd s nxt AND 7) OR wa prv else wa prv)
       else rd s x)" if "cellp x" for x
    using remove_from_free_effect(2)[OF ok b inl that]
    by (simp add: s'_def prv_def nxt_def xs_def i_def a_def)
  have blk: "\<exists>c \<in> set bs. addr c = q \<and> \<not> alc c \<and> bucket (bsz c) = i \<and> (bsz c = 16 \<longleftrightarrow> bsz b = 16)"
    if q: "q \<in> set xs" for q
  proof -
    obtain c where c: "c \<in> set bs" "addr c = q" "\<not> alc c" "bucket (bsz c) = i"
      using heap_wf_listed[OF ok i15, of q] q by (auto simp add: xs_def)
    have "bsz c = 16 \<longleftrightarrow> bsz b = 16"
      using heap_wf_bucket0[OF ok c(1)] heap_wf_bucket0[OF ok b] c(4) by (simp add: i_def)
    then show ?thesis using c by blast
  qed
  have pin: "prv \<in> set xs" if "0 < prv" using prev_in_mem[of xs a] that by (simp add: prv_def)
  have nin: "nxt \<in> set xs" if "0 < nxt" using next_in_mem[of xs a] that by (simp add: nxt_def)
  have pn: "prv \<noteq> nxt" if "0 < prv"
    using prev_neq_next[OF d ain z] that by (simp add: prv_def nxt_def)
  have pa: "prv \<noteq> a" using prev_in_neq[OF apos, of xs] by (simp add: prv_def)
  have na: "nxt \<noteq> a" using next_in_neq[OF d apos] by (simp add: nxt_def)
  have d8p: "8 dvd prv"
  proof (cases "0 < prv")
    case True
    then obtain c where "c \<in> set bs" "addr c = prv" using blk[OF pin] by blast
    then show ?thesis using heap_wf_geom(6)[OF ok] by blast
  qed simp
  have d8n: "8 dvd nxt"
  proof (cases "0 < nxt")
    case True
    then obtain c where "c \<in> set bs" "addr c = nxt" using blk[OF nin] by blast
    then show ?thesis using heap_wf_geom(6)[OF ok] by blast
  qed simp
  text \<open>Cells outside the two neighbours in the list are not written.\<close>
  have out: "rd s' y = rd s y"
    if y: "cellp y"
      and yp: "\<And>p. p \<in> set bs \<Longrightarrow> addr p = prv \<Longrightarrow> y < prv \<or> prv + bsz p \<le> y"
      and yn: "\<And>n. n \<in> set bs \<Longrightarrow> addr n = nxt \<Longrightarrow> y < nxt \<or> nxt + bsz n \<le> y" for y
  proof -
    have 1: "y \<noteq> prv + 8" if p0: "0 < prv"
    proof -
      obtain p where p: "p \<in> set bs" "addr p = prv" using blk[OF pin[OF p0]] by blast
      have "16 \<le> bsz p" using heap_wf_geom(3)[OF ok p(1)] .
      then show ?thesis using yp[OF p] by auto
    qed
    have 2: "y \<noteq> (if bsz b = 16 then nxt else nxt + 16)" if n0: "0 < nxt"
    proof -
      obtain n where n: "n \<in> set bs" "addr n = nxt" "bsz n = 16 \<longleftrightarrow> bsz b = 16"
        using blk[OF nin[OF n0]] by blast
      have "16 \<le> bsz n" "bsz n \<noteq> 16 \<Longrightarrow> 32 \<le> bsz n"
        using heap_wf_geom(3)[OF ok n(1)] heap_wf_block_cells(5)[OF ok n(1)] by simp_all
      then show ?thesis using yn[OF n(1,2)] n(3) by auto
    qed
    show ?thesis using eff[OF y] 1 2 by auto
  qed
  have outside: "rd s' y = rd s y"
    if c: "c \<in> set bs" and cp: "addr c \<noteq> prv" and cn: "addr c \<noteq> nxt"
      and y: "8 dvd y" "addr c \<le> y" "y < addr c + bsz c" for c y
  proof (rule out)
    show "cellp y" using heap_wf_cellp[OF ok c y(1,3)] .
    fix p assume p: "p \<in> set bs" "addr p = prv"
    show "y < prv \<or> prv + bsz p \<le> y"
      using heap_wf_sep[OF ok c p(1)] cp p(2) y by auto
  next
    fix n assume n: "n \<in> set bs" "addr n = nxt"
    show "y < nxt \<or> nxt + bsz n \<le> y"
      using heap_wf_sep[OF ok c n(1)] cn n(2) y by auto
  qed
  have blocks: "block_ok s' F' c" if c: "c \<in> set bs" for c
  proof -
    note gc = heap_wf_geom[OF ok c] and hc = heap_wf_block[OF ok c]
      and cc = heap_wf_block_cells[OF ok c]
    have okc: "block_ok s F c" using hc by (simp add: block_ok_def)
    consider (p) "0 < prv" "addr c = prv" | (n) "0 < nxt" "addr c = nxt"
      | (o) "addr c \<noteq> prv" "addr c \<noteq> nxt"
      using gc(8) by (cases "addr c = prv"; cases "addr c = nxt") auto
    then show ?thesis
    proof cases
      case o
      have lk: "addr c \<in> set (F (bucket (bsz c))) \<and>
          next_in (F' (bucket (bsz c))) (addr c) = next_in (F (bucket (bsz c))) (addr c) \<and>
          prev_in (F' (bucket (bsz c))) (addr c) = prev_in (F (bucket (bsz c))) (addr c)"
        if m: "addr c \<in> set (F' (bucket (bsz c)))"
      proof (cases "bucket (bsz c) = i")
        case False
        then show ?thesis using m by (simp add: F'_def)
      next
        case True
        then have m': "addr c \<in> set (remove1 a xs)" using m by (simp add: F'_def)
        then have cin: "addr c \<in> set xs" and cne: "addr c \<noteq> a" using d by auto
        have "next_in xs (addr c) \<noteq> a"
          using next_prev[OF d z cin ain] o(1) by (simp add: prv_def)
        moreover have "prev_in xs (addr c) \<noteq> a"
          using next_prev[OF d z ain cin] o(2) by (auto simp add: nxt_def)
        ultimately show ?thesis
          using True cin next_in_remove1[OF d z ain cne] prev_in_remove1[OF d z ain cne cin]
          by (simp add: F'_def xs_def)
      qed
      show ?thesis
      proof (rule block_ok_frame[of s F c s' F'])
        show "block_ok s F c" using okc .
        show "rd s' x = rd s x" if "8 dvd x" "addr c \<le> x" "x < addr c + bsz c" for x
          using outside[OF c o that] .
        show "16 \<le> bsz c" "16 dvd bsz c" "8 dvd addr c" using gc by simp_all
        show "addr c \<in> set (F (bucket (bsz c))) \<and>
          next_in (F' (bucket (bsz c))) (addr c) = next_in (F (bucket (bsz c))) (addr c) \<and>
          prev_in (F' (bucket (bsz c))) (addr c) = prev_in (F (bucket (bsz c))) (addr c)"
          if "addr c \<in> set (F' (bucket (bsz c)))"
          using lk[OF that] .
      qed
    next
      case p
      have cin: "addr c \<in> set xs" using pin[OF p(1)] p(2) by simp
      obtain c' where c': "c' \<in> set bs" "addr c' = prv" "bucket (bsz c') = i"
          "bsz c' = 16 \<longleftrightarrow> bsz b = 16"
        using blk[OF pin[OF p(1)]] by blast
      have cc': "c' = c" using heap_wf_unique[OF ok c'(1) c] c'(2) p(2) by simp
      have bi: "bucket (bsz c) = i" and mini: "bsz c = 16 \<longleftrightarrow> bsz b = 16"
        using c' cc' by simp_all
      have cnn: "addr c \<noteq> nxt" using pn[OF p(1)] p(2) by simp
      have sepn: "y < nxt \<or> nxt + bsz n \<le> y"
        if "n \<in> set bs" "addr n = nxt" "addr c \<le> y" "y < addr c + bsz c" for n y
        using heap_wf_sep[OF ok c that(1)] cnn that by auto
      have r0: "rd s' (addr c) = rd s (addr c)"
      proof -
        have "addr c \<noteq> (if bsz b = 16 then nxt else nxt + 16)" if n0: "0 < nxt"
        proof -
          obtain n where n: "n \<in> set bs" "addr n = nxt" "bsz n = 16 \<longleftrightarrow> bsz b = 16"
            using blk[OF nin[OF n0]] by blast
          have "32 \<le> bsz n" if "bsz n \<noteq> 16" using heap_wf_block_cells(5)[OF ok n(1) that] .
          moreover have "addr c < nxt \<or> nxt + bsz n \<le> addr c"
            using sepn[OF n(1,2), of "addr c"] gc(3) by simp
          ultimately show ?thesis using n(3) cnn by auto
        qed
        then show ?thesis using eff[OF cc(1)] p by auto
      qed
      have r8: "rd s' (addr c + 8) = (if bsz b = 16 then wa nxt OR mini_mask else wa nxt)"
        using eff[OF cc(2)] p by simp
      have rf: "rd s' (addr c + bsz c - 8) = rd s (addr c + bsz c - 8)" if big: "bsz c \<noteq> 16"
      proof -
        have 32: "32 \<le> bsz c" using cc(5)[OF big] .
        have "addr c + bsz c - 8 \<noteq> (if bsz b = 16 then nxt else nxt + 16)" if n0: "0 < nxt"
        proof -
          obtain n where n: "n \<in> set bs" "addr n = nxt" "bsz n = 16 \<longleftrightarrow> bsz b = 16"
            using blk[OF nin[OF n0]] by blast
          have "32 \<le> bsz n" if "bsz n \<noteq> 16" using heap_wf_block_cells(5)[OF ok n(1) that] .
          moreover have "addr c + bsz c - 8 < nxt \<or> nxt + bsz n \<le> addr c + bsz c - 8"
            using sepn[OF n(1,2), of "addr c + bsz c - 8"] 32 by simp
          ultimately show ?thesis using n(3) big mini by auto
        qed
        then show ?thesis using eff[OF cc(4)] p 32 by auto
      qed
      have r16: "rd s' (addr c + 16) = rd s (addr c + 16)" if big: "bsz c \<noteq> 16"
      proof -
        have 32: "32 \<le> bsz c" using cc(5)[OF big] .
        have "addr c + 16 \<noteq> (if bsz b = 16 then nxt else nxt + 16)" if n0: "0 < nxt"
          using cnn big mini by auto
        then show ?thesis using eff[OF cc(3)[OF big]] p by auto
      qed
      have h': "hdr_ok (rd s' (addr c)) c" using hc(1) r0 by simp
      have f': "ftr_ok s' c" using hc(2) rf by (auto simp add: ftr_ok_def)
      have nx: "next_in (remove1 a xs) (addr c) = nxt"
        using next_in_remove1[OF d z ain, of "addr c"] next_of_prev[OF d ain z] p pa
        by (simp add: prv_def nxt_def)
      have px: "prev_in (remove1 a xs) (addr c) = prev_in xs (addr c)"
        using prev_in_remove1[OF d z ain _ cin] prev_prev_neq[OF d ain z] p pa
        by (simp add: prv_def)
      have lo: "lnk_ok s xs c" using hc(3) bi by (simp add: xs_def)
      have l': "lnk_ok s' (remove1 a xs) c"
        using lo cin nx px r0 r8 r16 mini link_word[OF d8n]
        by (auto simp add: lnk_ok_def)
      show ?thesis using h' f' l' bi by (simp add: block_ok_def F'_def)
    next
      case n
      have cin: "addr c \<in> set xs" using nin[OF n(1)] n(2) by simp
      obtain c' where c': "c' \<in> set bs" "addr c' = nxt" "bucket (bsz c') = i"
          "bsz c' = 16 \<longleftrightarrow> bsz b = 16"
        using blk[OF nin[OF n(1)]] by blast
      have cc': "c' = c" using heap_wf_unique[OF ok c'(1) c] c'(2) n(2) by simp
      have bi: "bucket (bsz c) = i" and mini: "bsz c = 16 \<longleftrightarrow> bsz b = 16"
        using c' cc' by simp_all
      have cnp: "addr c \<noteq> prv" if "0 < prv" using pn[OF that] n(2) by simp
      have sepp: "y < prv \<or> prv + bsz p \<le> y"
        if "0 < prv" "p \<in> set bs" "addr p = prv" "addr c \<le> y" "y < addr c + bsz c" for p y
        using heap_wf_sep[OF ok c that(2)] cnp[OF that(1)] that by auto
      have np8: "y \<noteq> prv + 8" if p0: "0 < prv" and y: "addr c \<le> y" "y < addr c + bsz c" for y
      proof -
        obtain p where p: "p \<in> set bs" "addr p = prv" using blk[OF pin[OF p0]] by blast
        have "16 \<le> bsz p" using heap_wf_geom(3)[OF ok p(1)] .
        then show ?thesis using sepp[OF p0 p y] by auto
      qed
      have q0: "addr c \<noteq> prv + 8" if "0 < prv"
        using np8[OF that, of "addr c"] gc(3) by simp
      have q8: "addr c + 8 \<noteq> prv + 8" if "0 < prv"
        using np8[OF that, of "addr c + 8"] gc(3) by simp
      have q16: "addr c + 16 \<noteq> prv + 8" if "0 < prv" "bsz c \<noteq> 16"
        using np8[OF that(1), of "addr c + 16"] cc(5)[OF that(2)] by simp
      have qf: "addr c + bsz c - 8 \<noteq> prv + 8" if "0 < prv" "bsz c \<noteq> 16"
        using np8[OF that(1), of "addr c + bsz c - 8"] cc(5)[OF that(2)] by simp
      have r0: "rd s' (addr c) = (if bsz b = 16 then (rd s nxt AND 7) OR wa prv else rd s nxt)"
        using eff[OF cc(1)] n q0 by auto
      have r8: "rd s' (addr c + 8) = rd s (addr c + 8)"
        using eff[OF cc(2)] n q8 by auto
      have r16: "rd s' (addr c + 16) = wa prv" if big: "bsz c \<noteq> 16"
        using eff[OF cc(3)[OF big]] n q16 big mini by auto
      have rf: "rd s' (addr c + bsz c - 8) = rd s (addr c + bsz c - 8)" if big: "bsz c \<noteq> 16"
        using eff[OF cc(4)] n qf cc(5)[OF big] big mini by auto
      have h': "hdr_ok (rd s' (addr c)) c"
      proof (cases "bsz c = 16")
        case True
        then show ?thesis using hc(1) r0 mini n(2) mini_link_header(2-4)[OF d8p, of "rd s nxt"]
          by (simp add: hdr_ok_def)
      next
        case False
        then show ?thesis using hc(1) r0 mini n(2) by simp
      qed
      have f': "ftr_ok s' c" using hc(2) rf by (auto simp add: ftr_ok_def)
      have nx: "next_in (remove1 a xs) (addr c) = next_in xs (addr c)"
        using next_in_remove1[OF d z ain, of "addr c"] next_next_neq[OF d ain z] n na
        by (simp add: nxt_def)
      have px: "prev_in (remove1 a xs) (addr c) = prv"
        using prev_in_remove1[OF d z ain _ cin] prev_of_next[OF d ain z] n na
        by (simp add: prv_def nxt_def)
      have lo: "lnk_ok s xs c" using hc(3) bi by (simp add: xs_def)
      have l': "lnk_ok s' (remove1 a xs) c"
        using lo cin nx px r0 r8 r16 mini n(2) mini_link_header(1)[OF d8p, of "rd s nxt"]
        by (auto simp add: lnk_ok_def)
      show ?thesis using h' f' l' bi by (simp add: block_ok_def F'_def)
    qed
  qed
  have epi: "rd s' (unat (mem_brk s) - 8) = rd s (unat (mem_brk s) - 8)"
  proof (rule out)
    show "cellp (unat (mem_brk s) - 8)" using heap_wf_epi_cellp(1)[OF ok] .
    fix p assume p: "p \<in> set bs" "addr p = prv"
    show "unat (mem_brk s) - 8 < prv \<or> prv + bsz p \<le> unat (mem_brk s) - 8"
      using heap_wf_geom(2)[OF ok p(1)] p(2) by auto
  next
    fix n assume n: "n \<in> set bs" "addr n = nxt"
    show "unat (mem_brk s) - 8 < nxt \<or> nxt + bsz n \<le> unat (mem_brk s) - 8"
      using heap_wf_geom(2)[OF ok n(1)] n(2) by auto
  qed
  have lists: "lists_ok bs F'"
    using ok d by (auto simp add: heap_wf_def lists_ok_def F'_def xs_def dest: notin_set_remove1)
  have roots: "free_root s' j = wa (hd0 (F' j))" if "j < 15" for j
  proof -
    have r: "free_root s j = wa (hd0 (F j))" using ok that by (simp add: heap_wf_def)
    have hz: "prv = 0 \<longleftrightarrow> hd0 xs = a" using prev_in_zero_iff[OF ain z] by (simp add: prv_def)
    have ne: "xs \<noteq> []" using ain by auto
    show ?thesis
      using r root hz hd0_remove1[OF d, of a] ne
      by (auto simp add: F'_def xs_def nxt_def)
  qed
  have "heap_wf s' bs F'"
    using ok blocks lists roots
    by (simp add: heap_wf_def s'_def)
  then show "heap_wf (remove_from_free (wa (addr b)) s) bs
     (F(bucket (bsz b) := remove1 (addr b) (F (bucket (bsz b)))))"
    by (simp add: s'_def F'_def xs_def i_def a_def)
  show "rd (remove_from_free (wa (addr b)) s) (unat (mem_brk s) - 8) = rd s (unat (mem_brk s) - 8)"
    using epi by (simp add: s'_def a_def)
qed

lemma get_root_set_root [simp]: "get_root (set_root i v s) i = v"
  by (simp add: get_root_def set_root_def)

lemma get_root_store [simp]:
  "get_root (store_word p v s) i = get_root s i"
  "get_root (set_prev_free p q s) i = get_root s i"
  "get_root (set_next_free p q s) i = get_root s i"
  by (simp_all add: get_root_def)

lemma hd0_zero_iff: "0 \<notin> set xs \<Longrightarrow> hd0 xs = 0 \<longleftrightarrow> xs = []"
  by (cases xs) auto

lemma add_to_free_effect:
  assumes ok: "heap_wf s bs F" and b: "b \<in> set bs"
    and notin: "addr b \<notin> set (F (bucket (bsz b)))"
  defines "r \<equiv> hd0 (F (bucket (bsz b)))"
  defines "s' \<equiv> add_to_free (wa (addr b)) s"
  shows "free_root s' = (free_root s)(bucket (bsz b) := wa (addr b))"
    and "\<And>x. cellp x \<Longrightarrow> rd s' x =
      (if x = addr b + 8 then (if bsz b = 16 then wa r OR mini_mask else wa r)
       else if x = (if bsz b = 16 then addr b else addr b + 16)
         then (if bsz b = 16 then (rd s (addr b) AND 7) OR 0 else 0)
       else if 0 < r \<and> x = (if bsz b = 16 then r else r + 16)
         then (if bsz b = 16 then (rd s r AND 7) OR wa (addr b) else wa (addr b))
       else rd s x)"
proof -
  define i where "i = bucket (bsz b)"
  define a where "a = addr b"
  have i15: "i < 15" using bucket_le[of "bsz b"] by (simp add: i_def)
  have z: "0 \<notin> set (F i)" using heap_wf_zero_notin[OF ok i15] .
  note g = heap_wf_geom[OF ok b] and h = heap_wf_block[OF ok b]
    and cb = heap_wf_block_cells[OF ok b]
  have ind: "unat (get_seglist_ind (get_size s (wa a))) = i"
    using hdr_ok_reads(1)[OF h(1)] g(9) by (simp add: unat_seglist_ind_wa i_def a_def)
  define ix where "ix = get_seglist_ind (get_size s (wa a))"
  have uix: "unat ix = i" using ind by (simp add: ix_def)
  have root: "get_root s ix = wa r"
    using ok i15 by (simp add: get_root_def uix heap_wf_def r_def i_def)
  have rz: "wa r = 0 \<longleftrightarrow> r = 0"
  proof (cases "r = 0")
    case False
    then have "r \<in> set (F i)" using hd0_in[of "F i"] by (simp add: r_def i_def)
    then obtain c where "c \<in> set bs" "addr c = r" using heap_wf_listed[OF ok i15] by blast
    then have "r < 2 ^ 64" using heap_wf_geom(10)[OF ok] by blast
    then show ?thesis by (rule wa_eq_0)
  qed simp
  have az: "wa a \<noteq> 0" using g(8,10) wa_eq_0[of a] by (simp add: a_def)
  have sp: "rd (set_prev_free (wa a) q t) y =
      (if bsz b = 16 then (if y = a then (rd t a AND 7) OR q else rd t y)
       else (if y = a + 16 then q else rd t y))"
    if "hdr_ok (rd t a) b" "cellp y" for q t y
  proof (cases "bsz b = 16")
    case True
    then show ?thesis using that hdr_ok_reads(4)[of t a b] cb(1)
      by (simp add: set_prev_free_def field_wa rd_store_word a_def)
  next
    case False
    then show ?thesis using that hdr_ok_reads(4)[of t a b] cb(3)
      by (simp add: set_prev_free_def field_wa rd_store_word a_def)
  qed
  have sn: "rd (set_next_free (wa a) q t) y =
      (if y = a + 8 then (if bsz b = 16 then q OR mini_mask else q) else rd t y)"
    if "hdr_ok (rd t a) b" "cellp y" for q t y
    using rd_set_next_free[of t a b y q] that cb(1,2) by (simp add: a_def)
  have ha: "hdr_ok (rd s a) b" using h(1) by (simp add: a_def)
  have ne: "a \<noteq> a + 8" "a + 16 \<noteq> a + 8" by simp_all
  show fr: "free_root s' = (free_root s)(bucket (bsz b) := wa (addr b))"
    using root uix
    by (simp add: s'_def add_to_free_def Let_def ix_def[symmetric] a_def[symmetric]
        set_root_def i_def)
  fix x assume x: "cellp x"
  show "rd s' x =
      (if x = addr b + 8 then (if bsz b = 16 then wa r OR mini_mask else wa r)
       else if x = (if bsz b = 16 then addr b else addr b + 16)
         then (if bsz b = 16 then (rd s (addr b) AND 7) OR 0 else 0)
       else if 0 < r \<and> x = (if bsz b = 16 then r else r + 16)
         then (if bsz b = 16 then (rd s r AND 7) OR wa (addr b) else wa (addr b))
       else rd s x)"
  proof (cases "r = 0")
    case True
    let ?s1 = "set_root ix (wa a) s"
    let ?s2 = "set_prev_free (wa a) 0 ?s1"
    have e: "s' = set_next_free (wa a) 0 ?s2"
      using root True
      by (simp add: s'_def add_to_free_def Let_def ix_def[symmetric] a_def[symmetric])
    have h1: "hdr_ok (rd ?s1 a) b" using ha by simp
    have h2: "hdr_ok (rd ?s2 a) b"
    proof (cases "bsz b = 16")
      case True
      have "rd ?s2 a = (rd s a AND 7) OR wa 0" using sp[OF h1 cb(1)[folded a_def]] True by simp
      then show ?thesis using ha True mini_link_header(2-4)[of 0 "rd s a"]
        by (simp add: hdr_ok_def)
    next
      case False
      then show ?thesis using sp[OF h1 cb(1)[folded a_def]] ha by simp
    qed
    show ?thesis
      unfolding e sn[OF h2 x] sp[OF h1 x] using True by (auto simp add: a_def)
  next
    case False
    then have rin: "r \<in> set (F i)" using hd0_in[of "F i"] by (simp add: r_def i_def)
    then obtain c where c: "c \<in> set bs" "addr c = r" "bucket (bsz c) = i"
      using heap_wf_listed[OF ok i15] by blast
    have mini: "bsz c = 16 \<longleftrightarrow> bsz b = 16"
      using heap_wf_bucket0[OF ok c(1)] heap_wf_bucket0[OF ok b] c(3) by (simp add: i_def)
    note hc = heap_wf_block[OF ok c(1)] and cc = heap_wf_block_cells[OF ok c(1)]
      and gc = heap_wf_geom[OF ok c(1)]
    let ?s1 = "set_prev_free (wa r) (wa a) s"
    let ?s2 = "set_next_free (wa a) (wa r) ?s1"
    let ?s3 = "set_prev_free (wa a) 0 ?s2"
    have e: "s' = set_root ix (wa a) ?s3"
      using root False rz
      by (simp add: s'_def add_to_free_def Let_def ix_def[symmetric] a_def[symmetric])
    have r1: "rd ?s1 y =
      (if bsz b = 16 then (if y = r then (rd s r AND 7) OR wa a else rd s y)
       else (if y = r + 16 then wa a else rd s y))" if "cellp y" for y
    proof (cases "bsz b = 16")
      case True
      then show ?thesis using that hc(1) hdr_ok_reads(4)[of s r c] cc(1) c(2) mini
        by (simp add: set_prev_free_def field_wa rd_store_word)
    next
      case False
      then show ?thesis using that hc(1) hdr_ok_reads(4)[of s r c] cc(3) c(2) mini
        by (simp add: set_prev_free_def field_wa rd_store_word)
    qed
    have d8a: "8 dvd a" using g(6) by (simp add: a_def)
    have ar: "a \<noteq> r" using rin notin by (auto simp add: a_def i_def)
    have sep: "addr b + bsz b \<le> addr c \<or> addr c + bsz c \<le> addr b"
      using heap_wf_sep[OF ok b c(1)] ar c(2) by (simp add: a_def)
    have ar16: "a \<noteq> r + 16" if "bsz b \<noteq> 16"
      using sep cc(5) mini that c(2) g(3) by (auto simp add: a_def)
    have a16r: "a + 16 \<noteq> r" if "bsz b \<noteq> 16"
      using sep cb(5) mini that c(2) gc(3) by (auto simp add: a_def)
    have par: "a + 8 \<noteq> r" "a + 8 \<noteq> r + 16"
      using mod16_neq(1,2)[of a r] g(5) gc(5) c(2) by (simp_all add: a_def)
    have s1a: "rd ?s1 a = rd s a"
      using r1[OF cb(1)[folded a_def]] ar ar16 by auto
    have h1: "hdr_ok (rd ?s1 a) b" using ha s1a by simp
    have s2a: "rd ?s2 a = rd s a" using sn[OF h1 cb(1)[folded a_def]] s1a by simp
    have h2: "hdr_ok (rd ?s2 a) b" using ha s2a by simp
    have "rd s' x = rd ?s3 x" by (simp add: e)
    then show ?thesis
      unfolding sp[OF h2 x] s2a sn[OF h1 x] r1[OF x]
      using False ar ar16 a16r par by (auto simp add: a_def)
  qed
qed

lemma add_to_free_wf:
  assumes ok: "heap_wf s bs F" and b: "b \<in> set bs" and free: "\<not> alc b"
    and notin: "addr b \<notin> set (F (bucket (bsz b)))"
  shows "heap_wf (add_to_free (wa (addr b)) s) bs
     (F(bucket (bsz b) := addr b # F (bucket (bsz b))))"
    and "rd (add_to_free (wa (addr b)) s) (unat (mem_brk s) - 8) = rd s (unat (mem_brk s) - 8)"
proof -
  define i where "i = bucket (bsz b)"
  define xs where "xs = F i"
  define a where "a = addr b"
  define r where "r = hd0 xs"
  define s' where "s' = add_to_free (wa a) s"
  define F' where "F' = F(i := a # xs)"
  have i15: "i < 15" using bucket_le[of "bsz b"] by (simp add: i_def)
  have d: "distinct xs" and z: "0 \<notin> set xs"
    using heap_wf_distinct[OF ok i15] heap_wf_zero_notin[OF ok i15] by (simp_all add: xs_def)
  have anin: "a \<notin> set xs" using notin by (simp add: xs_def i_def a_def)
  note gb = heap_wf_geom[OF ok b] and hb = heap_wf_block[OF ok b]
    and cb = heap_wf_block_cells[OF ok b]
  have root: "free_root s' = (free_root s)(i := wa a)"
    using add_to_free_effect(1)[OF ok b notin] by (simp add: s'_def i_def a_def)
  have eff: "rd s' x =
      (if x = a + 8 then (if bsz b = 16 then wa r OR mini_mask else wa r)
       else if x = (if bsz b = 16 then a else a + 16)
         then (if bsz b = 16 then (rd s a AND 7) OR 0 else 0)
       else if 0 < r \<and> x = (if bsz b = 16 then r else r + 16)
         then (if bsz b = 16 then (rd s r AND 7) OR wa a else wa a)
       else rd s x)" if "cellp x" for x
    using add_to_free_effect(2)[OF ok b notin that]
    by (simp add: s'_def r_def xs_def i_def a_def)
  have rin: "r \<in> set xs" if "0 < r" using hd0_in[of xs] that by (simp add: r_def)
  have ar: "a \<noteq> r" if "0 < r" using rin[OF that] anin by auto
  have rblk: "\<exists>c \<in> set bs. addr c = r \<and> bucket (bsz c) = i \<and> (bsz c = 16 \<longleftrightarrow> bsz b = 16)"
    if r0: "0 < r"
  proof -
    obtain c where c: "c \<in> set bs" "addr c = r" "bucket (bsz c) = i"
      using heap_wf_listed[OF ok i15, of r] rin[OF r0] by (auto simp add: xs_def)
    have "bsz c = 16 \<longleftrightarrow> bsz b = 16"
      using heap_wf_bucket0[OF ok c(1)] heap_wf_bucket0[OF ok b] c(3) by (simp add: i_def)
    then show ?thesis using c by blast
  qed
  have d8r: "8 dvd r"
  proof (cases "0 < r")
    case True
    then obtain c where "c \<in> set bs" "addr c = r" using rblk by blast
    then show ?thesis using heap_wf_geom(6)[OF ok] by blast
  qed simp
  have d8a: "8 dvd a" using gb(6) by (simp add: a_def)
  text \<open>Only cells of the block and of the old head of the list are written.\<close>
  have out: "rd s' y = rd s y"
    if y: "cellp y" and yb: "y < a \<or> a + bsz b \<le> y"
      and yr: "\<And>c. c \<in> set bs \<Longrightarrow> addr c = r \<Longrightarrow> y < r \<or> r + bsz c \<le> y" for y
  proof -
    have 1: "y \<noteq> a + 8" "y \<noteq> (if bsz b = 16 then a else a + 16)"
      using yb gb(3) cb(5) by (auto simp add: a_def)
    have 2: "y \<noteq> (if bsz b = 16 then r else r + 16)" if r0: "0 < r"
    proof -
      obtain c where c: "c \<in> set bs" "addr c = r" "bsz c = 16 \<longleftrightarrow> bsz b = 16"
        using rblk[OF r0] by blast
      have "16 \<le> bsz c" "bsz c \<noteq> 16 \<Longrightarrow> 32 \<le> bsz c"
        using heap_wf_geom(3)[OF ok c(1)] heap_wf_block_cells(5)[OF ok c(1)] by simp_all
      then show ?thesis using yr[OF c(1,2)] c(3) by auto
    qed
    show ?thesis using eff[OF y] 1 2 by auto
  qed
  have blocks: "block_ok s' F' c" if c: "c \<in> set bs" for c
  proof -
    note gc = heap_wf_geom[OF ok c] and hc = heap_wf_block[OF ok c]
      and cc = heap_wf_block_cells[OF ok c]
    have okc: "block_ok s F c" using hc by (simp add: block_ok_def)
    consider (b) "addr c = a" | (r) "0 < r" "addr c = r" "addr c \<noteq> a"
      | (o) "addr c \<noteq> a" "addr c \<noteq> r"
      using gc(8) by (cases "addr c = a"; cases "addr c = r") auto
    then show ?thesis
    proof cases
      case o
      have sepb: "addr c + bsz c \<le> addr b \<or> addr b + bsz b \<le> addr c"
        using heap_wf_sep[OF ok c b] o(1) by (auto simp add: a_def)
      have lk: "addr c \<in> set (F (bucket (bsz c))) \<and>
          next_in (F' (bucket (bsz c))) (addr c) = next_in (F (bucket (bsz c))) (addr c) \<and>
          prev_in (F' (bucket (bsz c))) (addr c) = prev_in (F (bucket (bsz c))) (addr c)"
        if m: "addr c \<in> set (F' (bucket (bsz c)))"
      proof (cases "bucket (bsz c) = i")
        case False
        then show ?thesis using m by (simp add: F'_def)
      next
        case True
        then show ?thesis using m o by (simp add: F'_def xs_def r_def)
      qed
      show ?thesis
      proof (rule block_ok_frame[of s F c s' F'])
        show "block_ok s F c" using okc .
        show "rd s' x = rd s x" if x: "8 dvd x" "addr c \<le> x" "x < addr c + bsz c" for x
        proof (rule out)
          show "cellp x" using heap_wf_cellp[OF ok c x(1,3)] .
          show "x < a \<or> a + bsz b \<le> x" using sepb x by (auto simp add: a_def)
          fix c' assume c': "c' \<in> set bs" "addr c' = r"
          show "x < r \<or> r + bsz c' \<le> x"
            using heap_wf_sep[OF ok c c'(1)] o(2) c'(2) x by auto
        qed
        show "16 \<le> bsz c" "16 dvd bsz c" "8 dvd addr c" using gc by simp_all
        show "addr c \<in> set (F (bucket (bsz c))) \<and>
          next_in (F' (bucket (bsz c))) (addr c) = next_in (F (bucket (bsz c))) (addr c) \<and>
          prev_in (F' (bucket (bsz c))) (addr c) = prev_in (F (bucket (bsz c))) (addr c)"
          if "addr c \<in> set (F' (bucket (bsz c)))"
          using lk[OF that] .
      qed
    next
      case b
      have cb': "c = b" using heap_wf_unique[OF ok c \<open>b \<in> set bs\<close>] b by (simp add: a_def)
      have nr: "a \<noteq> r + 16" "a + 16 \<noteq> r" "a + bsz b - 8 \<noteq> r + 16" if r0: "0 < r" and big: "bsz b \<noteq> 16"
      proof -
        obtain c' where c': "c' \<in> set bs" "addr c' = r" "bsz c' = 16 \<longleftrightarrow> bsz b = 16"
          using rblk[OF r0] by blast
        have sep: "addr b + bsz b \<le> addr c' \<or> addr c' + bsz c' \<le> addr b"
          using heap_wf_sep[OF ok \<open>b \<in> set bs\<close> c'(1)] ar[OF r0] c'(2) by (simp add: a_def)
        have 32: "32 \<le> bsz c'" "32 \<le> bsz b"
          using heap_wf_block_cells(5)[OF ok c'(1)] cb(5) big c'(3) by simp_all
        show "a \<noteq> r + 16" "a + 16 \<noteq> r" "a + bsz b - 8 \<noteq> r + 16"
          using sep 32 c'(2) by (auto simp add: a_def)
      qed
      have nr8: "a + 8 \<noteq> r" "a + 8 \<noteq> r + 16" if r0: "0 < r"
      proof -
        obtain c' where c': "c' \<in> set bs" "addr c' = r" using rblk[OF r0] by blast
        show "a + 8 \<noteq> r" "a + 8 \<noteq> r + 16"
          using mod16_neq(1,2)[of a r] gb(5) heap_wf_geom(5)[OF ok c'(1)] c'(2)
          by (simp_all add: a_def)
      qed
      have r0: "rd s' a = (if bsz b = 16 then (rd s a AND 7) OR 0 else rd s a)"
        using eff[OF cb(1)[folded a_def]] ar nr(1) by auto
      have r8: "rd s' (a + 8) = (if bsz b = 16 then wa r OR mini_mask else wa r)"
        using eff[OF cb(2)[folded a_def]] by simp
      have r16: "rd s' (a + 16) = 0" if big: "bsz b \<noteq> 16"
        using eff[OF cb(3)[OF big, folded a_def]] big by simp
      have rf: "rd s' (a + bsz b - 8) = rd s (a + bsz b - 8)" if big: "bsz b \<noteq> 16"
        using eff[OF cb(4)[folded a_def]] big cb(5)[OF big] nr(3) by auto
      have h': "hdr_ok (rd s' a) b"
      proof (cases "bsz b = 16")
        case True
        then show ?thesis using hb(1) r0 mini_link_header(2-4)[of 0 "rd s a"]
          by (simp add: hdr_ok_def a_def)
      next
        case False
        then show ?thesis using hb(1) r0 by (simp add: a_def)
      qed
      have f': "ftr_ok s' b" using hb(2) rf by (auto simp add: ftr_ok_def a_def)
      have l': "lnk_ok s' (a # xs) b"
        using r0 r8 r16 link_word[OF d8r] mini_link_header(1)[of 0 "rd s a"]
        by (auto simp add: lnk_ok_def a_def[symmetric] r_def)
      show ?thesis using h' f' l' cb' by (simp add: block_ok_def F'_def i_def a_def)
    next
      case r
      obtain c' where c': "c' \<in> set bs" "addr c' = r" "bucket (bsz c') = i"
          "bsz c' = 16 \<longleftrightarrow> bsz b = 16"
        using rblk[OF r(1)] by blast
      have cc': "c' = c" using heap_wf_unique[OF ok c'(1) c] c'(2) r(2) by simp
      have bi: "bucket (bsz c) = i" and mini: "bsz c = 16 \<longleftrightarrow> bsz b = 16"
        using c' cc' by simp_all
      have cin: "addr c \<in> set xs" using rin[OF r(1)] r(2) by simp
      have sep: "addr b + bsz b \<le> addr c \<or> addr c + bsz c \<le> addr b"
        using heap_wf_sep[OF ok \<open>b \<in> set bs\<close> c] r(3) by (simp add: a_def)
      have na: "y \<noteq> a + 8 \<and> y \<noteq> (if bsz b = 16 then a else a + 16)"
        if "addr c \<le> y" "y < addr c + bsz c" for y
        using sep that gb(3) cb(5) by (auto simp add: a_def)
      have r0: "rd s' r = (if bsz b = 16 then (rd s r AND 7) OR wa a else rd s r)"
        using eff[OF cc(1)] na[of "addr c"] gc(3) r by auto
      have r8: "rd s' (r + 8) = rd s (r + 8)"
        using eff[OF cc(2)] na[of "addr c + 8"] gc(3) r by auto
      have r16: "rd s' (r + 16) = wa a" if big: "bsz c \<noteq> 16"
        using eff[OF cc(3)[OF big]] na[of "addr c + 16"] cc(5)[OF big] r mini big by auto
      have rf: "rd s' (r + bsz c - 8) = rd s (r + bsz c - 8)" if big: "bsz c \<noteq> 16"
        using eff[OF cc(4)] na[of "addr c + bsz c - 8"] cc(5)[OF big] r mini big by auto
      have h': "hdr_ok (rd s' (addr c)) c"
      proof (cases "bsz c = 16")
        case True
        then show ?thesis using hc(1) r0 mini r(2) mini_link_header(2-4)[OF d8a, of "rd s r"]
          by (simp add: hdr_ok_def)
      next
        case False
        then show ?thesis using hc(1) r0 mini r(2) by simp
      qed
      have f': "ftr_ok s' c" using hc(2) rf r(2) by (auto simp add: ftr_ok_def)
      have lo: "lnk_ok s xs c" using hc(3) bi by (simp add: xs_def)
      have l': "lnk_ok s' (a # xs) c"
        using lo cin r0 r8 r16 mini r mini_link_header(1)[OF d8a, of "rd s r"]
        by (auto simp add: lnk_ok_def r_def)
      show ?thesis using h' f' l' bi by (simp add: block_ok_def F'_def)
    qed
  qed
  have epi: "rd s' (unat (mem_brk s) - 8) = rd s (unat (mem_brk s) - 8)"
  proof (rule out)
    show "cellp (unat (mem_brk s) - 8)" using heap_wf_epi_cellp(1)[OF ok] .
    show "unat (mem_brk s) - 8 < a \<or> a + bsz b \<le> unat (mem_brk s) - 8"
      using gb(2) by (auto simp add: a_def)
    fix c assume c: "c \<in> set bs" "addr c = r"
    show "unat (mem_brk s) - 8 < r \<or> r + bsz c \<le> unat (mem_brk s) - 8"
      using heap_wf_geom(2)[OF ok c(1)] c(2) by auto
  qed
  have lists: "lists_ok bs F'"
    using ok d anin b free
    by (auto simp add: heap_wf_def lists_ok_def F'_def xs_def i_def a_def)
  have roots: "free_root s' j = wa (hd0 (F' j))" if "j < 15" for j
    using ok that root by (auto simp add: heap_wf_def F'_def)
  have "heap_wf s' bs F'"
    using ok blocks lists roots
    by (simp add: heap_wf_def s'_def)
  then show "heap_wf (add_to_free (wa (addr b)) s) bs
     (F(bucket (bsz b) := addr b # F (bucket (bsz b))))"
    by (simp add: s'_def F'_def xs_def i_def a_def)
  show "rd (add_to_free (wa (addr b)) s) (unat (mem_brk s) - 8) = rd s (unat (mem_brk s) - 8)"
    using epi by (simp add: s'_def a_def)
qed

lemma heap_ok_wf: "heap_ok s bs F epa \<Longrightarrow> heap_wf s bs F"
  by (simp add: heap_ok_def)

lemma heap_ok_epi: "heap_ok s bs F epa \<Longrightarrow> epi_ok (rd s (unat (mem_brk s) - 8)) epa"
  by (simp add: heap_ok_def)

lemmas heap_ok_geom = heap_wf_geom[OF heap_ok_wf]
lemmas heap_ok_cellp = heap_wf_cellp[OF heap_ok_wf]
lemmas heap_ok_epi_cellp = heap_wf_epi_cellp[OF heap_ok_wf]
lemmas heap_ok_listed = heap_wf_listed[OF heap_ok_wf]
lemmas heap_ok_zero_notin = heap_wf_zero_notin[OF heap_ok_wf]
lemmas heap_ok_distinct = heap_wf_distinct[OF heap_ok_wf]
lemmas heap_ok_block = heap_wf_block[OF heap_ok_wf]
lemmas heap_ok_unique = heap_wf_unique[OF heap_ok_wf]
lemmas heap_ok_bucket0 = heap_wf_bucket0[OF heap_ok_wf]
lemmas heap_ok_links = heap_wf_links[OF heap_ok_wf]
lemmas heap_ok_block_cells = heap_wf_block_cells[OF heap_ok_wf]
lemmas heap_ok_sep = heap_wf_sep[OF heap_ok_wf]

lemma remove_from_free_ok:
  assumes ok: "heap_ok s bs F epa" and b: "b \<in> set bs"
    and inl: "addr b \<in> set (F (bucket (bsz b)))"
  shows "heap_ok (remove_from_free (wa (addr b)) s) bs
     (F(bucket (bsz b) := remove1 (addr b) (F (bucket (bsz b))))) epa"
  using remove_from_free_wf[OF heap_ok_wf[OF ok] b inl] heap_ok_epi[OF ok]
  by (simp add: heap_ok_def)

lemma add_to_free_ok:
  assumes ok: "heap_ok s bs F epa" and b: "b \<in> set bs" and free: "\<not> alc b"
    and notin: "addr b \<notin> set (F (bucket (bsz b)))"
  shows "heap_ok (add_to_free (wa (addr b)) s) bs
     (F(bucket (bsz b) := addr b # F (bucket (bsz b)))) epa"
  using add_to_free_wf[OF heap_ok_wf[OF ok] b free notin] heap_ok_epi[OF ok]
  by (simp add: heap_ok_def)

lemma wa_lt: "a < 2 ^ 64 \<Longrightarrow> b < 2 ^ 64 \<Longrightarrow> wa a < wa b \<longleftrightarrow> a < b"
  by (simp add: word_less_nat_alt unat_wa)

lemma wa_le: "a < 2 ^ 64 \<Longrightarrow> b < 2 ^ 64 \<Longrightarrow> wa a \<le> wa b \<longleftrightarrow> a \<le> b"
  by (simp add: word_le_nat_alt unat_wa)

lemma rd_write_block:
  assumes a: "cellp a" and f: "cellp (a + sz - 8)" and x: "cellp x"
    and sz: "16 dvd sz" "sz < 2 ^ 64" "16 \<le> sz"
  shows "rd (write_block (wa a) (wa sz) al pa s) x =
     (if \<not> al \<and> sz \<noteq> 16 \<and> x = a + sz - 8 then pack (wa sz) al pa
      else if x = a then pack (wa sz) al pa else rd s x)"
proof -
  have ft: "header_to_footer (store_word (wa a) (pack (wa sz) al' pa) s) (wa a) = wa (a + sz - 8)"
    for al'
  proof -
    let ?s1 = "store_word (wa a) (pack (wa sz) al' pa) s"
    have h: "hdr_ok (rd ?s1 a) (Blk a sz al' pa)"
      using hdr_ok_pack[OF sz(1,2)] a by (simp add: rd_store_word)
    have gs: "get_size ?s1 (wa a) = wa sz" using hdr_ok_reads(1)[OF h] by simp
    show ?thesis using sz(3) by (simp add: header_to_footer_def gs const_defs wa_simps)
  qed
  have m: "wa sz = min_block_size \<longleftrightarrow> sz = 16"
    using wa_eq_16[OF sz(2)] by (simp add: min_block_size_16)
  show ?thesis
    using a f x by (auto simp add: write_block_def Let_def field_wa ft m rd_store_word)
qed

lemma segment_ok:
  assumes ok: "heap_ok s (xs @ mid @ ys) F epa"
    and ch: "chain (unat (heap_start s)) xs a" "chain a mid' e" "chain e ys (unat (mem_brk s) - 8)"
    and fields: "heap_start s' = heap_start s" "mem_brk s' = mem_brk s"
      "mem_max_addr s' = mem_max_addr s" "free_root s' = free_root s"
    and frame: "\<And>x. cellp x \<Longrightarrow> x < a \<or> e \<le> x \<Longrightarrow> rd s' x = rd s x"
    and new: "\<And>c. c \<in> set mid' \<Longrightarrow> block_ok s' F c"
    and lists: "lists_ok (xs @ mid' @ ys) F"
  shows "heap_ok s' (xs @ mid' @ ys) F epa"
proof -
  have chain': "chain (unat (heap_start s)) (xs @ mid' @ ys) (unat (mem_brk s) - 8)"
    using ch by (auto simp add: chain_append)
  have ae: "e \<le> unat (mem_brk s) - 8" using chain_le[OF ch(3)] .
  have old: "block_ok s' F c" if c: "c \<in> set xs \<or> c \<in> set ys" for c
  proof -
    have cin: "c \<in> set (xs @ mid @ ys)" using c by auto
    note gc = heap_ok_geom[OF ok cin] and hc = heap_ok_block[OF ok cin]
    have okc: "block_ok s F c" using hc by (simp add: block_ok_def)
    have rng: "addr c + bsz c \<le> a \<or> e \<le> addr c"
      using c chain_before[OF ch(1)] chain_after[OF ch(3)] by auto
    show ?thesis
    proof (rule block_ok_frame[of s F c s' F])
      show "block_ok s F c" using okc .
      show "rd s' x = rd s x" if x: "8 dvd x" "addr c \<le> x" "x < addr c + bsz c" for x
      proof (rule frame)
        show "cellp x" using heap_ok_cellp[OF ok cin x(1,3)] .
        show "x < a \<or> e \<le> x" using rng x by auto
      qed
      show "16 \<le> bsz c" "16 dvd bsz c" "8 dvd addr c" using gc by simp_all
      show "addr c \<in> set (F (bucket (bsz c))) \<and>
          next_in (F (bucket (bsz c))) (addr c) = next_in (F (bucket (bsz c))) (addr c) \<and>
          prev_in (F (bucket (bsz c))) (addr c) = prev_in (F (bucket (bsz c))) (addr c)"
        if "addr c \<in> set (F (bucket (bsz c)))" using that by simp
    qed
  qed
  have blocks: "\<forall>c \<in> set (xs @ mid' @ ys). block_ok s' F c"
    using old new by auto
  have epi: "rd s' (unat (mem_brk s) - 8) = rd s (unat (mem_brk s) - 8)"
    using frame[OF heap_ok_epi_cellp(1)[OF ok]] ae by simp
  show ?thesis
    using ok chain' blocks epi lists fields by (simp add: heap_ok_def heap_wf_def)
qed

lemma heap_ok_chain_parts:
  assumes ok: "heap_ok s (xs @ mid @ ys) F epa" and mid: "chain a mid e" "mid \<noteq> []"
  shows "chain (unat (heap_start s)) xs a" "chain e ys (unat (mem_brk s) - 8)"
proof -
  have "chain (unat (heap_start s)) (xs @ mid @ ys) (unat (mem_brk s) - 8)"
    using ok by (simp add: heap_ok_def heap_wf_def)
  then obtain m m' where m: "chain (unat (heap_start s)) xs m" "chain m mid m'"
      "chain m' ys (unat (mem_brk s) - 8)"
    by (auto simp add: chain_append)
  obtain c cs where cs: "mid = c # cs" using mid(2) by (cases mid) auto
  have "m = a" using m(2) mid(1) cs by simp
  moreover from this have "m' = e" using chain_end_unique[OF mid(1)] m(2) by simp
  ultimately show "chain (unat (heap_start s)) xs a" "chain e ys (unat (mem_brk s) - 8)"
    using m by simp_all
qed

lemma lists_ok_unlisted:
  assumes ok: "heap_ok s (xs @ mid @ ys) F epa"
    and unl: "\<And>c. c \<in> set mid \<Longrightarrow> addr c \<notin> set (F (bucket (bsz c)))"
  shows "lists_ok (xs @ mid' @ ys) F"
    and "\<And>c i. c \<in> set mid \<Longrightarrow> i < 15 \<Longrightarrow> addr c \<notin> set (F i)"
proof -
  have lo: "lists_ok (xs @ mid @ ys) F" using ok by (simp add: heap_ok_def heap_wf_def)
  have nin: "addr c \<notin> set (F i)" if c: "c \<in> set mid" and i: "i < 15" for c i
  proof
    assume "addr c \<in> set (F i)"
    then obtain c' where c': "c' \<in> set (xs @ mid @ ys)" "addr c' = addr c" "bucket (bsz c') = i"
      using heap_ok_listed[OF ok i] by blast
    have "c' = c" using heap_ok_unique[OF ok c'(1) _ c'(2)] c by simp
    then show False using unl[OF c] c'(3) \<open>addr c \<in> set (F i)\<close> by simp
  qed
  show "\<And>c i. c \<in> set mid \<Longrightarrow> i < 15 \<Longrightarrow> addr c \<notin> set (F i)" using nin .
  show "lists_ok (xs @ mid' @ ys) F"
    unfolding lists_ok_def
  proof (intro allI impI conjI ballI)
    fix i :: nat assume i: "i < 15"
    show "distinct (F i)" using lo i by (simp add: lists_ok_def)
    fix q assume q: "q \<in> set (F i)"
    obtain c where c: "c \<in> set (xs @ mid @ ys)" "addr c = q" "\<not> alc c" "bucket (bsz c) = i"
      using heap_ok_listed[OF ok i q] by blast
    have "c \<notin> set mid" using nin[OF _ i] q c(2) by auto
    then have "c \<in> set (xs @ mid' @ ys)" using c(1) by auto
    then show "\<exists>b\<in>set (xs @ mid' @ ys). addr b = q \<and> \<not> alc b \<and> bucket (bsz b) = i"
      using c by blast
  qed
qed

lemma write_block_ok:
  assumes ok: "heap_ok s (xs @ mid @ ys) F epa" and mid: "chain a mid e" "mid \<noteq> []"
    and unl: "\<And>c. c \<in> set mid \<Longrightarrow> addr c \<notin> set (F (bucket (bsz c)))"
  shows "heap_ok (write_block (wa a) (wa (e - a)) al pa s) (xs @ [Blk a (e - a) al pa] @ ys) F epa"
proof -
  define sz where "sz = e - a"
  define s' where "s' = write_block (wa a) (wa sz) al pa s"
  note cp = heap_ok_chain_parts[OF ok mid]
  obtain c cs where cs: "mid = c # cs" using mid(2) by (cases mid) auto
  have c: "c \<in> set (xs @ mid @ ys)" "addr c = a" "16 \<le> bsz c" "a + bsz c \<le> e"
    using mid(1) cs chain_le[of "a + bsz c" cs e] by auto
  have sz16: "16 \<le> sz" "16 dvd sz" "a + sz = e"
    using c chain_end_dvd[OF mid(1)] by (simp_all add: sz_def)
  have e: "e + 8 \<le> unat (mem_brk s)" "8 \<le> unat (mem_brk s)"
    using chain_le[OF cp(2)] heap_ok_epi_cellp(2)[OF ok] by simp_all
  have bk: "unat (mem_brk s) < 2 ^ 64" by (rule unat_lt64)
  have sz64: "sz < 2 ^ 64" using e bk sz16 by simp
  have a8: "8 dvd a" "a mod 16 = 8" using heap_ok_geom(5,6)[OF ok c(1)] c(2) by simp_all
  have ca: "cellp a" using a8 e bk sz16 by (simp add: cellp_def)
  have "8 dvd sz" using sz16(2) by (auto elim!: dvdE)
  then have "8 dvd (a + sz - 8)" using a8 sz16(1) by (simp add: dvd_diff_nat)
  then have cf: "cellp (a + sz - 8)" using e bk sz16 by (simp add: cellp_def)
  have rdw: "rd s' x =
     (if \<not> al \<and> sz \<noteq> 16 \<and> x = a + sz - 8 then pack (wa sz) al pa
      else if x = a then pack (wa sz) al pa else rd s x)" if "cellp x" for x
    unfolding s'_def using rd_write_block[OF ca cf that sz16(2) sz64 sz16(1)] .
  have lists: "lists_ok (xs @ [Blk a sz al pa] @ ys) F"
    using lists_ok_unlisted(1)[OF ok unl] by blast
  have nl: "a \<notin> set (F i)" if "i < 15" for i
    using lists_ok_unlisted(2)[OF ok unl, of c] cs c(2) that by auto
  have "heap_ok s' (xs @ [Blk a sz al pa] @ ys) F epa"
  proof (rule segment_ok[OF ok cp(1) _ cp(2)])
    show "chain a [Blk a sz al pa] e" using sz16 by simp
    show "heap_start s' = heap_start s" "mem_brk s' = mem_brk s"
      "mem_max_addr s' = mem_max_addr s" "free_root s' = free_root s"
      by (simp_all add: s'_def)
    show "rd s' x = rd s x" if "cellp x" "x < a \<or> e \<le> x" for x
      using rdw[OF that(1)] that(2) sz16 by auto
    show "lists_ok (xs @ [Blk a sz al pa] @ ys) F" using lists .
    fix c' assume "c' \<in> set [Blk a sz al pa]"
    then have c': "c' = Blk a sz al pa" by simp
    have big: "32 \<le> sz" if "sz \<noteq> 16" using that sz16 by (auto elim!: dvdE)
    have h: "hdr_ok (rd s' a) c'"
      using rdw[OF ca] big hdr_ok_pack[OF sz16(2) sz64, of al pa a] by (auto simp add: c')
    have hf: "hdr_ok (pack (wa sz) False pa) (Blk a sz False pa)"
      using hdr_ok_pack[OF sz16(2) sz64] .
    have f: "ftr_ok s' c'"
      using rdw[OF cf] hf by (auto simp add: ftr_ok_def c' hdr_ok_def)
    have l: "lnk_ok s' (F (bucket sz)) c'"
      using nl[OF le_less_trans[OF bucket_le, of 15]] by (simp add: lnk_ok_def c')
    show "block_ok s' F c'" using h f l by (simp add: block_ok_def c')
  qed
  then show ?thesis by (simp add: s'_def sz_def)
qed

lemma pa_mask_link:
  "((h :: 64 word) OR alloc_prev_mask) AND NOT 7 = h AND NOT 7"
  "(h AND NOT alloc_prev_mask) AND NOT 7 = h AND NOT 7"
  by (rule bit_word_eqI; auto simp add: alloc_prev_mask_def bit_simps bit_consts)+

lemma lists_ok_same:
  assumes "lists_ok (xs @ n # ys) F" "addr n' = addr n" "bsz n' = bsz n" "alc n' = alc n"
  shows "lists_ok (xs @ n' # ys) F"
  unfolding lists_ok_def
proof (intro allI impI conjI ballI)
  fix i :: nat assume i: "i < 15"
  show "distinct (F i)" using assms(1) i by (simp add: lists_ok_def)
  fix q assume "q \<in> set (F i)"
  then obtain c where c: "c \<in> set (xs @ n # ys)" "addr c = q" "\<not> alc c" "bucket (bsz c) = i"
    using assms(1) i by (auto simp add: lists_ok_def)
  show "\<exists>b\<in>set (xs @ n' # ys). addr b = q \<and> \<not> alc b \<and> bucket (bsz b) = i"
  proof (cases "c = n")
    case True
    then show ?thesis using c assms(2-4) by auto
  next
    case False
    then have "c \<in> set (xs @ n' # ys)" using c(1) by auto
    then show ?thesis using c by blast
  qed
qed

lemma set_prev_alloc_block_ok:
  assumes ok: "heap_ok s (xs @ n # ys) F epa"
  shows "heap_ok (set_prev_alloc (wa (addr n)) p s)
      (xs @ Blk (addr n) (bsz n) (alc n) p # ys) F epa"
proof -
  define a where "a = addr n"
  define n' where "n' = Blk a (bsz n) (alc n) p"
  define s' where "s' = set_prev_alloc (wa a) p s"
  have nin: "n \<in> set (xs @ n # ys)" by simp
  note g = heap_ok_geom[OF ok nin] and h = heap_ok_block[OF ok nin]
    and c = heap_ok_block_cells[OF ok nin]
  have chn: "chain a [n] (a + bsz n)" using g by (simp add: a_def)
  have ok': "heap_ok s (xs @ [n] @ ys) F epa" using ok by simp
  have ne: "[n] \<noteq> []" by simp
  note cp = heap_ok_chain_parts[OF ok' chn ne]
  have rdp: "rd s' x = (if x = a then (if p then rd s a OR alloc_prev_mask
      else rd s a AND NOT alloc_prev_mask) else rd s x)" if "cellp x" for x
    unfolding s'_def using rd_set_prev_alloc[OF c(1)[folded a_def] that] .
  have "heap_ok s' (xs @ [n'] @ ys) F epa"
  proof (rule segment_ok[OF ok' cp(1) _ cp(2)])
    show "chain a [n'] (a + bsz n)" using g by (simp add: n'_def)
    show "heap_start s' = heap_start s" "mem_brk s' = mem_brk s"
      "mem_max_addr s' = mem_max_addr s" "free_root s' = free_root s"
      by (simp_all add: s'_def)
    show "rd s' x = rd s x" if "cellp x" "x < a \<or> a + bsz n \<le> x" for x
      using rdp[OF that(1)] that(2) g(3) by auto
    show "lists_ok (xs @ [n'] @ ys) F"
      using lists_ok_same[of xs n ys F n'] ok by (simp add: heap_ok_def heap_wf_def n'_def a_def)
    fix c' assume "c' \<in> set [n']"
    then have c': "c' = n'" by simp
    have r0: "rd s' a = (if p then rd s a OR alloc_prev_mask else rd s a AND NOT alloc_prev_mask)"
      using rdp[OF c(1)[folded a_def]] by simp
    have r8: "rd s' (a + 8) = rd s (a + 8)" using rdp[OF c(2)[folded a_def]] by simp
    have r16: "rd s' (a + 16) = rd s (a + 16)" if "bsz n \<noteq> 16"
      using rdp[OF c(3)[OF that, folded a_def]] by simp
    have rf: "rd s' (a + bsz n - 8) = rd s (a + bsz n - 8)" if "bsz n \<noteq> 16"
    proof -
      have "a + bsz n - 8 \<noteq> a" using c(5)[OF that] by linarith
      then show ?thesis using rdp[OF c(4)[folded a_def]] by simp
    qed
    have hh: "hdr_ok (rd s' a) n'"
      using hdr_ok_set_pa[OF h(1)] r0 by (simp add: n'_def a_def)
    have f: "ftr_ok s' n'" using h(2) rf by (auto simp add: ftr_ok_def n'_def a_def)
    have l: "lnk_ok s' (F (bucket (bsz n))) n'"
      using h(3) r0 r8 r16 pa_mask_link by (auto simp add: lnk_ok_def n'_def a_def)
    show "block_ok s' F c'" using hh f l by (simp add: block_ok_def c' n'_def)
  qed
  then show ?thesis by (simp add: s'_def n'_def a_def)
qed

lemma epi_ok_set_pa:
  assumes "epi_ok h epa"
  shows "epi_ok (if p then h OR alloc_prev_mask else h AND NOT alloc_prev_mask) p"
proof -
  have 1: "(h OR 2) AND NOT 15 = h AND NOT 15" "(h AND NOT 2) AND NOT 15 = h AND NOT 15"
    by (rule bit_word_eqI; auto simp add: bit_simps bit_consts)+
  show ?thesis using assms 1
    by (auto simp add: epi_ok_def extract_alloc_bit extract_prev_alloc_bit extract_mini_bit
        extract_size_def const_defs bit_simps bit_consts)
qed

lemma set_prev_alloc_epi_ok:
  assumes ok: "heap_ok s bs F epa"
  shows "heap_ok (set_prev_alloc (wa (unat (mem_brk s) - 8)) p s) bs F p"
proof -
  define e where "e = unat (mem_brk s) - 8"
  define s' where "s' = set_prev_alloc (wa e) p s"
  have ce: "cellp e" using heap_ok_epi_cellp(1)[OF ok] by (simp add: e_def)
  have rdp: "rd s' x = (if x = e then (if p then rd s e OR alloc_prev_mask
      else rd s e AND NOT alloc_prev_mask) else rd s x)" if "cellp x" for x
    unfolding s'_def using rd_set_prev_alloc[OF ce that] .
  have blocks: "block_ok s' F c" if c: "c \<in> set bs" for c
  proof (rule block_ok_frame[of s F c s' F])
    note gc = heap_ok_geom[OF ok c]
    show "block_ok s F c" using heap_ok_block[OF ok c] by (simp add: block_ok_def)
    show "rd s' x = rd s x" if x: "8 dvd x" "addr c \<le> x" "x < addr c + bsz c" for x
      using rdp[OF heap_ok_cellp[OF ok c x(1,3)]] gc(2) x by (auto simp add: e_def)
    show "16 \<le> bsz c" "16 dvd bsz c" "8 dvd addr c" using gc by simp_all
    show "addr c \<in> set (F (bucket (bsz c))) \<and>
        next_in (F (bucket (bsz c))) (addr c) = next_in (F (bucket (bsz c))) (addr c) \<and>
        prev_in (F (bucket (bsz c))) (addr c) = prev_in (F (bucket (bsz c))) (addr c)"
      if "addr c \<in> set (F (bucket (bsz c)))" using that by simp
  qed
  have epi: "epi_ok (rd s' e) p"
    using rdp[OF ce] epi_ok_set_pa[of "rd s e" epa p] ok by (simp add: heap_ok_def heap_wf_def e_def)
  have "heap_ok s' bs F p"
    using ok blocks epi by (simp add: heap_ok_def heap_wf_def s'_def e_def)
  then show ?thesis by (simp add: s'_def e_def)
qed

lemma write_footer_ok:
  assumes ok: "heap_ok s bs F epa" and b: "b \<in> set bs" and big: "bsz b \<noteq> 16"
  shows "heap_ok (write_footer (wa (addr b)) s) bs F epa"
proof -
  define a where "a = addr b"
  define s' where "s' = write_footer (wa a) s"
  note g = heap_ok_geom[OF ok b] and h = heap_ok_block[OF ok b]
    and c = heap_ok_block_cells[OF ok b]
  have 32: "32 \<le> bsz b" using c(5)[OF big] .
  have ft: "header_to_footer s (wa (addr b)) = wa (addr b + bsz b - 8)"
    using hdr_ok_reads(1)[OF h(1)] g(3)
    by (simp add: header_to_footer_def const_defs wa_simps)
  have rdp: "rd s' x = (if x = a + bsz b - 8 then rd s a else rd s x)" if "cellp x" for x
    using c(4) that by (simp add: s'_def write_footer_def ft field_wa rd_store_word a_def)
  obtain xs ys where sp: "bs = xs @ b # ys" using split_list[OF b] by blast
  have ok': "heap_ok s (xs @ [b] @ ys) F epa" using ok sp by simp
  have chn: "chain a [b] (a + bsz b)" using g by (simp add: a_def)
  have ne: "[b] \<noteq> []" by simp
  note cp = heap_ok_chain_parts[OF ok' chn ne]
  have "heap_ok s' (xs @ [b] @ ys) F epa"
  proof (rule segment_ok[OF ok' cp(1) chn cp(2)])
    show "heap_start s' = heap_start s" "mem_brk s' = mem_brk s"
      "mem_max_addr s' = mem_max_addr s" "free_root s' = free_root s"
      by (simp_all add: s'_def)
    show "rd s' x = rd s x" if "cellp x" "x < a \<or> a + bsz b \<le> x" for x
      using rdp[OF that(1)] that(2) 32 by auto
    show "lists_ok (xs @ [b] @ ys) F" using ok' by (simp add: heap_ok_def heap_wf_def)
    fix c' assume "c' \<in> set [b]"
    then have c': "c' = b" by simp
    have nq: "a \<noteq> a + bsz b - 8" "a + 8 \<noteq> a + bsz b - 8" "a + 16 \<noteq> a + bsz b - 8"
      using 32 by linarith+
    have r0: "rd s' a = rd s a" using rdp[OF c(1)[folded a_def]] nq by simp
    have r8: "rd s' (a + 8) = rd s (a + 8)" using rdp[OF c(2)[folded a_def]] nq by simp
    have r16: "rd s' (a + 16) = rd s (a + 16)" using rdp[OF c(3)[OF big, folded a_def]] nq by simp
    have rf: "rd s' (a + bsz b - 8) = rd s a" using rdp[OF c(4)[folded a_def]] by simp
    have hh: "hdr_ok (rd s' a) b" using h(1) r0 by (simp add: a_def)
    have f: "ftr_ok s' b" using h(1) rf big by (auto simp add: ftr_ok_def hdr_ok_def a_def)
    have l: "lnk_ok s' (F (bucket (bsz b))) b"
      using h(3) r0 r8 r16 big by (auto simp add: lnk_ok_def a_def)
    show "block_ok s' F c'" using hh f l by (simp add: block_ok_def c' a_def)
  qed
  then show ?thesis using sp by (simp add: s'_def a_def)
qed

lemma find_next_wa:
  assumes "hdr_ok (rd s a) b"
  shows "find_next s (wa a) = wa (a + bsz b)"
  using hdr_ok_reads(1)[OF assms] by (simp add: find_next_def wa_simps)

lemma update_next_fields [simp]:
  "heap_start (update_next p q s) = heap_start s"
  "free_root (update_next p q s) = free_root s"
  "mem_brk (update_next p q s) = mem_brk s"
  "mem_max_addr (update_next p q s) = mem_max_addr s"
  by (simp_all add: update_next_def Let_def)

lemma update_next_ok:
  assumes ok: "heap_ok s (xs @ b # ys) F epa"
  shows "heap_ok (update_next (wa (addr b)) p s) (xs @ b # upd_pa p ys) F
      (if ys = [] then p else epa)"
proof -
  define a where "a = addr b"
  have bin: "b \<in> set (xs @ b # ys)" by simp
  note g = heap_ok_geom[OF ok bin] and h = heap_ok_block[OF ok bin]
  have fn: "find_next s (wa a) = wa (a + bsz b)" using find_next_wa[OF h(1)] by (simp add: a_def)
  define s1 where "s1 = set_prev_alloc (wa (a + bsz b)) p s"
  have ch: "chain (unat (heap_start s)) (xs @ b # ys) (unat (mem_brk s) - 8)"
    using ok by (simp add: heap_ok_def heap_wf_def)
  have ok1: "heap_ok s1 (xs @ b # upd_pa p ys) F (if ys = [] then p else epa)"
  proof (cases ys)
    case Nil
    then have "a + bsz b = unat (mem_brk s) - 8" using ch by (simp add: chain_split a_def)
    then show ?thesis using set_prev_alloc_epi_ok[OF ok, of p] Nil by (simp add: s1_def)
  next
    case (Cons n ys')
    then have an: "addr n = a + bsz b" using ch by (simp add: chain_split a_def)
    have "heap_ok s ((xs @ [b]) @ n # ys') F epa" using ok Cons by simp
    from set_prev_alloc_block_ok[OF this, of p]
    show ?thesis using Cons an by (simp add: s1_def)
  qed
  have bin1: "b \<in> set (xs @ b # upd_pa p ys)" by simp
  have m1: "get_mini s1 (wa a) = (bsz b = 16)"
    using hdr_ok_reads(4)[OF heap_ok_block(1)[OF ok1 bin1]] by (simp add: a_def)
  have e: "update_next (wa a) p s = (if \<not> p \<and> bsz b \<noteq> 16 then write_footer (wa a) s1 else s1)"
    by (simp only: update_next_def Let_def fn s1_def[symmetric] m1)
  show ?thesis
  proof (cases "\<not> p \<and> bsz b \<noteq> 16")
    case True
    then show ?thesis using e write_footer_ok[OF ok1 bin1] by (simp add: a_def)
  next
    case False
    then show ?thesis using e ok1 by (auto simp add: a_def)
  qed
qed

lemma find_prev_ok:
  assumes ok: "heap_ok s (xs @ p # b # ys) F epa" and fr: "\<not> alc p"
    and inl: "addr p \<in> set (F (bucket (bsz p)))"
  shows "find_prev s (wa (addr b)) = wa (addr p)"
proof -
  have pin: "p \<in> set (xs @ p # b # ys)" by simp
  note g = heap_ok_geom[OF ok pin] and h = heap_ok_block[OF ok pin]
    and c = heap_ok_block_cells[OF ok pin]
  have ch: "chain (unat (heap_start s)) (xs @ p # b # ys) (unat (mem_brk s) - 8)"
    using ok by (simp add: heap_ok_def heap_wf_def)
  then have ab: "addr b = addr p + bsz p" by (simp add: chain_split)
  define f where "f = addr b - 8"
  have fp: "find_prev_footer (wa (addr b)) = wa f"
    using ab g(3) by (simp add: find_prev_footer_def wa_simps f_def)
  have ld: "load64 (mem s) (wa f) = rd s f" by (simp add: rd_def)
  show ?thesis
  proof (cases "bsz p = 16")
    case True
    have f8: "f = addr p + 8" using ab True by (simp add: f_def)
    have m: "extract_mini (rd s f)"
      using h(3) inl True by (simp add: lnk_ok_def f8)
    have r: "wa f - 8 = wa (addr p)" by (simp add: f8 wa_simps)
    show ?thesis
      by (simp only: find_prev_def fp Let_def ld m r if_True)
  next
    case False
    have ff: "f = addr p + bsz p - 8" using ab by (simp add: f_def)
    have m: "\<not> extract_mini (rd s f)" and z: "extract_size (rd s f) = wa (bsz p)"
      using h(2) fr False by (simp_all add: ftr_ok_def ff)
    have nz: "wa (bsz p) \<noteq> 0" using wa_eq_0[OF g(9)] g(3) by simp
    have r: "wa f + wsize - wa (bsz p) = wa (addr p)"
      using g(3) by (simp add: wa_simps ff wsize_def)
    show ?thesis
      by (simp only: find_prev_def fp Let_def ld m z nz r if_False footer_to_header_def)
  qed
qed

lemma heap_ok_alloc_unlisted:
  assumes ok: "heap_ok s bs F epa" and b: "b \<in> set bs" and al: "alc b" and i: "i < 15"
  shows "addr b \<notin> set (F i)"
proof
  assume "addr b \<in> set (F i)"
  then obtain c where c: "c \<in> set bs" "addr c = addr b" "\<not> alc c"
    using heap_ok_listed[OF ok i] by blast
  have "c = b" using heap_ok_unique[OF ok c(1) b c(2)] .
  then show False using c(3) al by simp
qed

lemma split_block_fields [simp]:
  "heap_start (split_block p q s) = heap_start s"
  "mem_brk (split_block p q s) = mem_brk s"
  "mem_max_addr (split_block p q s) = mem_max_addr s"
  by (simp_all add: split_block_def Let_def)

lemma split_block_ok:
  assumes ok: "heap_ok s (xs @ Blk a sz True True # ys) F epa"
    and asz: "16 \<le> asize" "16 dvd asize" "asize \<le> sz"
  shows "heap_ok (split_block (wa a) (wa asize) s) (xs @ split_blks a sz asize @ ys)
     (if 16 \<le> sz - asize
      then F(bucket (sz - asize) := (a + asize) # F (bucket (sz - asize))) else F) epa"
proof -
  define B where "B = Blk a sz True True"
  define rest where "rest = sz - asize"
  have ok0: "heap_ok s (xs @ B # ys) F epa" using ok by (simp add: B_def)
  have bin: "B \<in> set (xs @ B # ys)" by simp
  note g = heap_ok_geom[OF ok0 bin, unfolded B_def blk.sel]
    and h = heap_ok_block[OF ok0 bin, unfolded B_def blk.sel]
    and c = heap_ok_block_cells[OF ok0 bin, unfolded B_def blk.sel]
  have asz64: "asize < 2 ^ 64" using asz(3) g(9) by simp
  have gs: "get_size s (wa a) = wa sz" using hdr_ok_reads(1)[OF h(1)] by simp
  have sub: "wa sz - wa asize = wa rest" using asz(3) by (simp add: wa_simps rest_def)
  have r64: "rest < 2 ^ 64" using g(9) by (simp add: rest_def)
  have cond: "min_block_size \<le> wa rest \<longleftrightarrow> 16 \<le> rest"
    using wa_le[of 16 rest] r64 by (simp add: min_block_size_16)
  show ?thesis
  proof (cases "16 \<le> rest")
    case False
    then show ?thesis using ok cond
      by (simp add: split_block_def Let_def gs sub split_blks_def rest_def[symmetric])
  next
    case True
    have r16: "16 dvd rest" using asz(2) g(4) by (simp add: rest_def dvd_diff_nat)
    have sum: "asize + rest = sz" using asz(3) by (simp add: rest_def)
    define B1 where "B1 = Blk a asize True True"
    define B2 where "B2 = Blk (a + asize) rest False True"
    define s1 where "s1 = write_block (wa a) (wa asize) True True s"
    define s2 where "s2 = write_block (wa (a + asize)) (wa rest) False True s1"
    have d8: "8 dvd asize" "8 dvd rest" "8 dvd a"
      using asz(2) r16 g(6) by (auto elim!: dvdE)
    have ca: "cellp a" using c(1) .
    have b64: "a + sz + 8 \<le> 2 ^ 64" using g(7) .
    have caf: "cellp (a + asize - 8)"
      using d8 asz(1,3) b64 by (simp add: cellp_def dvd_diff_nat)
    have cm: "cellp (a + asize)" using d8 sum True b64 by (simp add: cellp_def)
    have cmf: "cellp (a + asize + rest - 8)"
      using d8 sum True b64 by (simp add: cellp_def dvd_diff_nat)
    have rd1: "rd s1 x = (if x = a then pack (wa asize) True True else rd s x)" if "cellp x" for x
      unfolding s1_def using rd_write_block[OF ca caf that asz(2) asz64 asz(1)] by simp
    have h1: "hdr_ok (rd s1 a) B1"
      using rd1[OF ca] hdr_ok_pack[OF asz(2) asz64] by (simp add: B1_def)
    have fn: "find_next s1 (wa a) = wa (a + asize)"
      using find_next_wa[OF h1] by (simp add: B1_def)
    have rd2: "rd s2 x =
       (if rest \<noteq> 16 \<and> x = a + asize + rest - 8 then pack (wa rest) False True
        else if x = a + asize then pack (wa rest) False True else rd s1 x)" if "cellp x" for x
      unfolding s2_def using rd_write_block[OF cm cmf that r16 r64 True] by simp
    have e: "split_block (wa a) (wa asize) s = add_to_free (wa (a + asize)) s2"
      using True
      by (simp add: split_block_def Let_def gs sub cond s1_def[symmetric] fn s2_def[symmetric])
    have ok': "heap_ok s (xs @ [B] @ ys) F epa" using ok0 by simp
    have chB: "chain a [B] (a + sz)" using g by (simp add: B_def)
    have neB: "[B] \<noteq> []" by simp
    note cp = heap_ok_chain_parts[OF ok' chB neB]
    have unl: "addr c' \<notin> set (F (bucket (bsz c')))" if "c' \<in> set [B]" for c'
      using heap_ok_alloc_unlisted[OF ok0 bin _ le_less_trans[OF bucket_le, of 15]] that
      by (simp add: B_def)
    have nl1: "a \<notin> set (F i)" if "i < 15" for i
      using heap_ok_alloc_unlisted[OF ok0 bin _ that] by (simp add: B_def)
    have nl2: "a + asize \<notin> set (F i)" if i: "i < 15" for i
    proof
      assume "a + asize \<in> set (F i)"
      then obtain c' where c': "c' \<in> set (xs @ B # ys)" "addr c' = a + asize"
        using heap_ok_listed[OF ok0 i] by blast
      have "addr c' \<noteq> addr B" using c'(2) asz(1) by (simp add: B_def)
      then have "addr c' + bsz c' \<le> addr B \<or> addr B + bsz B \<le> addr c'"
        using heap_ok_sep[OF ok0 c'(1) bin] by simp
      then show False using c'(2) True sum asz(1) by (auto simp add: B_def)
    qed
    have ok2: "heap_ok s2 (xs @ [B1, B2] @ ys) F epa"
    proof (rule segment_ok[OF ok' cp(1) _ cp(2)])
      show "chain a [B1, B2] (a + sz)"
        using asz True r16 sum by (simp add: B1_def B2_def add.assoc)
      show "heap_start s2 = heap_start s" "mem_brk s2 = mem_brk s"
        "mem_max_addr s2 = mem_max_addr s" "free_root s2 = free_root s"
        by (simp_all add: s2_def s1_def)
      show "rd s2 x = rd s x" if "cellp x" "x < a \<or> a + sz \<le> x" for x
        using rd2[OF that(1)] rd1[OF that(1)] that(2) sum True by auto
      show "lists_ok (xs @ [B1, B2] @ ys) F"
        using lists_ok_unlisted(1)[OF ok' unl] by blast
      fix c' assume "c' \<in> set [B1, B2]"
      then consider "c' = B1" | "c' = B2" by auto
      then show "block_ok s2 F c'"
      proof cases
        case 1
        have "a \<noteq> a + asize + rest - 8" "a \<noteq> a + asize" using asz(1) True by linarith+
        then have "rd s2 a = pack (wa asize) True True" using rd2[OF ca] rd1[OF ca] by simp
        then have "hdr_ok (rd s2 a) B1" using hdr_ok_pack[OF asz(2) asz64] by (simp add: B1_def)
        moreover have "ftr_ok s2 B1" by (simp add: ftr_ok_def B1_def)
        moreover have "lnk_ok s2 (F (bucket asize)) B1"
          using nl1[OF le_less_trans[OF bucket_le, of 15]] by (simp add: lnk_ok_def B1_def)
        ultimately show ?thesis using 1 by (simp add: block_ok_def B1_def)
      next
        case 2
        have "32 \<le> rest" if "rest \<noteq> 16" using that True r16 by (auto elim!: dvdE)
        then have "rd s2 (a + asize) = pack (wa rest) False True" using rd2[OF cm] by auto
        then have "hdr_ok (rd s2 (a + asize)) B2"
          using hdr_ok_pack[OF r16 r64] by (simp add: B2_def)
        moreover have "ftr_ok s2 B2"
          using rd2[OF cmf] hdr_ok_pack[OF r16 r64, of False True "a + asize"]
          by (auto simp add: ftr_ok_def B2_def hdr_ok_def)
        moreover have "lnk_ok s2 (F (bucket rest)) B2"
          using nl2[OF le_less_trans[OF bucket_le, of 15]] by (simp add: lnk_ok_def B2_def)
        ultimately show ?thesis using 2 by (simp add: block_ok_def B2_def)
      qed
    qed
    have b2in: "B2 \<in> set (xs @ [B1, B2] @ ys)" by simp
    have "heap_ok (add_to_free (wa (addr B2)) s2) (xs @ [B1, B2] @ ys)
        (F(bucket (bsz B2) := addr B2 # F (bucket (bsz B2)))) epa"
      by (rule add_to_free_ok[OF ok2 b2in])
        (simp_all add: B2_def nl2[OF le_less_trans[OF bucket_le, of 15]])
    then show ?thesis using True e
      by (simp add: split_blks_def rest_def[symmetric] B1_def B2_def)
  qed
qed

lemma remove_many_ok:
  assumes "heap_ok s bs F epa" "set cs \<subseteq> set bs" "distinct (map addr cs)"
    "\<forall>c \<in> set cs. addr c \<in> set (F (bucket (bsz c)))"
  shows "\<exists>F'. heap_ok (fold (\<lambda>c. remove_from_free (wa (addr c))) cs s) bs F' epa \<and>
      (\<forall>i. set (F' i) = set (F i) - addr ` {c \<in> set cs. bucket (bsz c) = i})"
  using assms
proof (induction cs arbitrary: s F)
  case Nil
  then show ?case by auto
next
  case (Cons c cs)
  define k where "k = bucket (bsz c)"
  define F1 where "F1 = F(k := remove1 (addr c) (F k))"
  have cin: "c \<in> set bs" and inl: "addr c \<in> set (F (bucket (bsz c)))"
    using Cons.prems by auto
  have ok1: "heap_ok (remove_from_free (wa (addr c)) s) bs F1 epa"
    using remove_from_free_ok[OF Cons.prems(1) cin inl] by (simp add: F1_def k_def)
  have k15: "k < 15" using bucket_le[of "bsz c"] by (simp add: k_def)
  have dk: "distinct (F k)" using heap_ok_distinct[OF Cons.prems(1) k15] .
  have s1: "set (F1 i) = (if i = k then set (F k) - {addr c} else set (F i))" for i
    using dk by (simp add: F1_def)
  have "\<forall>d \<in> set cs. addr d \<in> set (F1 (bucket (bsz d)))"
  proof
    fix d assume d: "d \<in> set cs"
    then have "addr d \<noteq> addr c" using Cons.prems(3) by (auto simp add: image_iff)
    moreover have "addr d \<in> set (F (bucket (bsz d)))" using Cons.prems(4) d by simp
    ultimately show "addr d \<in> set (F1 (bucket (bsz d)))" by (auto simp add: s1)
  qed
  moreover have "set cs \<subseteq> set bs" "distinct (map addr cs)" using Cons.prems by auto
  ultimately obtain F' where F':
    "heap_ok (fold (\<lambda>c. remove_from_free (wa (addr c))) cs (remove_from_free (wa (addr c)) s)) bs F' epa"
    "\<And>i. set (F' i) = set (F1 i) - addr ` {c \<in> set cs. bucket (bsz c) = i}"
    using Cons.IH[OF ok1] by blast
  have "set (F' i) = set (F i) - addr ` {d \<in> set (c # cs). bucket (bsz d) = i}" for i
    unfolding F'(2) s1 by (auto simp add: k_def)
  then show ?case using F'(1) by auto
qed

lemma coalesce_merge:
  assumes ok: "heap_ok s (xs @ mid @ ys) F epa" and mid: "chain a mid e" "mid \<noteq> []"
    and fr: "\<forall>c \<in> set mid. \<not> alc c" and comp: "all_listed (xs @ mid @ ys) F"
    and cs: "set cs = set mid" "distinct (map addr cs)"
  shows "\<exists>F'. heap_ok (add_to_free (wa a) (write_block (wa a) (wa (e - a)) False True
            (fold (\<lambda>c. remove_from_free (wa (addr c))) cs s)))
          (xs @ [Blk a (e - a) False True] @ ys) F' epa \<and>
        all_listed (xs @ [Blk a (e - a) False True] @ ys) F'"
proof -
  define s3 where "s3 = fold (\<lambda>c. remove_from_free (wa (addr c))) cs s"
  define B where "B = Blk a (e - a) False True"
  have sub: "set cs \<subseteq> set (xs @ mid @ ys)" using cs(1) by auto
  have inl: "\<forall>c \<in> set cs. addr c \<in> set (F (bucket (bsz c)))"
    using comp fr cs(1) by (auto simp add: all_listed_def)
  obtain F3 where ok3: "heap_ok s3 (xs @ mid @ ys) F3 epa"
    and F3: "\<And>i. set (F3 i) = set (F i) - addr ` {c \<in> set cs. bucket (bsz c) = i}"
    using remove_many_ok[OF ok sub cs(2) inl] unfolding s3_def by blast
  have unl: "addr c \<notin> set (F3 (bucket (bsz c)))" if "c \<in> set mid" for c
    using that cs(1) by (auto simp add: F3)
  have ok4: "heap_ok (write_block (wa a) (wa (e - a)) False True s3) (xs @ [B] @ ys) F3 epa"
    unfolding B_def by (rule write_block_ok[OF ok3 mid unl])
  obtain b0 mid' where m: "mid = b0 # mid'" using mid(2) by (cases mid) auto
  then have a0: "addr b0 = a" using mid(1) by simp
  have nl: "a \<notin> set (F3 i)" if "i < 15" for i
    using lists_ok_unlisted(2)[OF ok3 unl, of b0 i] that m a0 by simp
  have bin: "B \<in> set (xs @ [B] @ ys)" by simp
  define k where "k = bucket (e - a)"
  define F4 where "F4 = F3(k := a # F3 k)"
  have ok5: "heap_ok (add_to_free (wa a) (write_block (wa a) (wa (e - a)) False True s3))
       (xs @ [B] @ ys) F4 epa"
    using add_to_free_ok[OF ok4 bin] nl[OF le_less_trans[OF bucket_le, of 15]]
    by (simp add: B_def F4_def k_def)
  note cp = heap_ok_chain_parts[OF ok mid]
  have far: "addr c \<notin> addr ` set mid" if c: "c \<in> set xs \<or> c \<in> set ys" for c
  proof
    assume "addr c \<in> addr ` set mid"
    then obtain d where d: "d \<in> set mid" "addr c = addr d" by auto
    have dm: "a \<le> addr d" "addr d + bsz d \<le> e" "16 \<le> bsz d"
      using chain_mem[OF mid(1) d(1)] by simp_all
    from c show False
    proof
      assume cx: "c \<in> set xs"
      have "addr c + bsz c \<le> a" using chain_before[OF cp(1) cx] .
      moreover have "16 \<le> bsz c" using chain_mem[OF cp(1) cx] by simp
      ultimately show False using dm d(2) by simp
    next
      assume cy: "c \<in> set ys"
      have "e \<le> addr c" using chain_after[OF cp(2) cy] .
      then show False using dm d(2) by simp
    qed
  qed
  have "all_listed (xs @ [B] @ ys) F4"
    unfolding all_listed_def
  proof (intro ballI impI)
    fix c assume c: "c \<in> set (xs @ [B] @ ys)" and f: "\<not> alc c"
    show "addr c \<in> set (F4 (bucket (bsz c)))"
    proof (cases "c = B")
      case True
      then show ?thesis by (simp add: B_def F4_def k_def)
    next
      case False
      then have c': "c \<in> set xs \<or> c \<in> set ys" using c by auto
      then have "addr c \<in> set (F (bucket (bsz c)))" using comp f by (auto simp add: all_listed_def)
      moreover have "addr c \<notin> addr ` set cs" using far[OF c'] cs(1) by simp
      ultimately have "addr c \<in> set (F3 (bucket (bsz c)))" by (auto simp add: F3)
      then show ?thesis by (auto simp add: F4_def)
    qed
  qed
  then show ?thesis using ok5 unfolding s3_def B_def by blast
qed

lemma coalesce_reads:
  assumes ok: "heap_ok s (xs @ b # ys) F epa"
  shows "get_prev_alloc s (wa (addr b)) = pal b"
    "find_next s (wa (addr b)) = wa (addr b + bsz b)"
    "get_alloc s (wa (addr b + bsz b)) = (case ys of [] \<Rightarrow> True | n # t \<Rightarrow> alc n)"
    "get_size s (wa (addr b)) = wa (bsz b)"
proof -
  have bin: "b \<in> set (xs @ b # ys)" by simp
  note h = heap_ok_block[OF ok bin]
  show "get_prev_alloc s (wa (addr b)) = pal b" "get_size s (wa (addr b)) = wa (bsz b)"
    using hdr_ok_reads[OF h(1)] by simp_all
  show "find_next s (wa (addr b)) = wa (addr b + bsz b)" using find_next_wa[OF h(1)] .
  have ch: "chain (unat (heap_start s)) (xs @ b # ys) (unat (mem_brk s) - 8)"
    using ok by (simp add: heap_ok_def heap_wf_def)
  show "get_alloc s (wa (addr b + bsz b)) = (case ys of [] \<Rightarrow> True | n # t \<Rightarrow> alc n)"
  proof (cases ys)
    case Nil
    then have "addr b + bsz b = unat (mem_brk s) - 8" using ch by (simp add: chain_split)
    then show ?thesis using heap_ok_epi[OF ok] Nil
      by (simp add: epi_ok_def get_alloc_def get_header_def rd_def)
  next
    case (Cons n t)
    then have an: "addr n = addr b + bsz b" using ch by (simp add: chain_split)
    have "n \<in> set (xs @ b # ys)" using Cons by simp
    from hdr_ok_reads(2)[OF heap_ok_block(1)[OF ok this]]
    show ?thesis using Cons an by simp
  qed
qed

lemma coalesce_block_ok:
  assumes ok: "heap_ok s (xs @ b # ys) F epa" and fb: "\<not> alc b"
    and comp: "all_listed (xs @ b # ys) F"
    and pc: "pal b \<longleftrightarrow> xs = [] \<or> alc (last xs)"
  shows "\<exists>s' F'. coalesce_block (wa (addr b)) s = (wa (clo xs b), s') \<and>
      heap_ok s' (cpre xs b @ cblk xs b ys # cpost ys) F' epa \<and>
      all_listed (cpre xs b @ cblk xs b ys # cpost ys) F'"
proof -
  note r = coalesce_reads[OF ok]
  define nf where "nf = (case ys of [] \<Rightarrow> False | n # t \<Rightarrow> \<not> alc n)"
  have na: "get_alloc s (wa (addr b + bsz b)) = (\<not> nf)"
    using r(3) by (simp add: nf_def split: list.splits)
  have ch: "chain (unat (heap_start s)) (xs @ b # ys) (unat (mem_brk s) - 8)"
    using ok by (simp add: heap_ok_def heap_wf_def)
  have bin: "b \<in> set (xs @ b # ys)" by simp
  note gb = heap_ok_geom[OF ok bin]
  have prev: "\<exists>xs0 p. xs = xs0 @ [p] \<and> \<not> alc p \<and> addr b = addr p + bsz p \<and>
       find_prev s (wa (addr b)) = wa (addr p) \<and> get_size s (wa (addr p)) = wa (bsz p) \<and>
       16 \<le> bsz p \<and> 16 dvd bsz p" if np: "\<not> pal b"
  proof -
    have ne: "xs \<noteq> []" and fl: "\<not> alc (last xs)" using pc np by auto
    define p where "p = last xs"
    define xs0 where "xs0 = butlast xs"
    have xs: "xs = xs0 @ [p]" using ne by (simp add: p_def xs0_def)
    have okp: "heap_ok s (xs0 @ p # b # ys) F epa" using ok xs by simp
    have pin: "p \<in> set (xs @ b # ys)" using xs by simp
    have fp: "\<not> alc p" using fl by (simp add: p_def)
    have inl: "addr p \<in> set (F (bucket (bsz p)))"
      using comp pin fp unfolding all_listed_def by blast
    have "addr b = addr p + bsz p" using ch xs by (simp add: chain_split)
    moreover have "get_size s (wa (addr p)) = wa (bsz p)"
      using hdr_ok_reads(1)[OF heap_ok_block(1)[OF ok pin]] .
    moreover note find_prev_ok[OF okp fp inl] heap_ok_geom(3,4)[OF ok pin]
    ultimately show ?thesis using xs fp by blast
  qed
  have nxt: "\<exists>n t. ys = n # t \<and> \<not> alc n \<and> addr n = addr b + bsz b \<and>
       get_size s (wa (addr n)) = wa (bsz n) \<and> 16 \<le> bsz n \<and> 16 dvd bsz n" if nf0: nf
  proof -
    obtain n t where ys: "ys = n # t" and fn: "\<not> alc n"
      using nf0 by (auto simp add: nf_def split: list.splits)
    have nin: "n \<in> set (xs @ b # ys)" using ys by simp
    have "addr n = addr b + bsz b" using ch ys by (simp add: chain_split)
    moreover have "get_size s (wa (addr n)) = wa (bsz n)"
      using hdr_ok_reads(1)[OF heap_ok_block(1)[OF ok nin]] .
    moreover note heap_ok_geom(3,4)[OF ok nin]
    ultimately show ?thesis using ys fn by auto
  qed
  consider (both) "nf" "\<not> pal b" | (onlyn) "nf" "pal b" | (onlyp) "\<not> nf" "\<not> pal b"
    | (none) "\<not> nf" "pal b" by blast
  then show ?thesis
  proof cases
    case both
    obtain xs0 p where p: "xs = xs0 @ [p]" "\<not> alc p" "addr b = addr p + bsz p"
      "find_prev s (wa (addr b)) = wa (addr p)" "get_size s (wa (addr p)) = wa (bsz p)"
      "16 \<le> bsz p" "16 dvd bsz p"
      using prev[OF both(2)] by blast
    obtain n t where n: "ys = n # t" "\<not> alc n" "addr n = addr b + bsz b"
      "get_size s (wa (addr n)) = wa (bsz n)" "16 \<le> bsz n" "16 dvd bsz n"
      using nxt[OF both(1)] by blast
    define e where "e = addr n + bsz n"
    have ok': "heap_ok s (xs0 @ [p, b, n] @ t) F epa" using ok p(1) n(1) by simp
    have comp': "all_listed (xs0 @ [p, b, n] @ t) F" using comp p(1) n(1) by simp
    have mid: "chain (addr p) [p, b, n] e" using p n gb(3,4) by (simp add: e_def)
    have sz: "e - addr p = bsz p + bsz b + bsz n" using p(3) n(3) by (simp add: e_def)
    obtain F' where F': "heap_ok (add_to_free (wa (addr p)) (write_block (wa (addr p))
          (wa (e - addr p)) False True (fold (\<lambda>c. remove_from_free (wa (addr c))) [p, n, b] s)))
          (xs0 @ [Blk (addr p) (e - addr p) False True] @ t) F' epa"
        "all_listed (xs0 @ [Blk (addr p) (e - addr p) False True] @ t) F'"
      using coalesce_merge[OF ok' mid _ _ comp', of "[p, n, b]"] p n fb gb(3) by auto
    have "coalesce_block (wa (addr b)) s = (wa (addr p), add_to_free (wa (addr p))
        (write_block (wa (addr p)) (wa (e - addr p)) False True
          (fold (\<lambda>c. remove_from_free (wa (addr c))) [p, n, b] s)))"
      using both
      by (simp add: coalesce_block_def Let_def r(1,2,4) na[unfolded n(3)[symmetric]] p(4,5)
          n(3)[symmetric] n(4) sz wa_add)
    moreover have "clo xs b = addr p" "cpre xs b = xs0" "cpost ys = t"
      "cblk xs b ys = Blk (addr p) (e - addr p) False True"
      using both p(1,2) n(1,2)
      by (simp_all add: clo_def cpre_def cpost_def cblk_def chi_def e_def)
    ultimately show ?thesis using F' by auto
  next
    case onlyn
    obtain n t where n: "ys = n # t" "\<not> alc n" "addr n = addr b + bsz b"
      "get_size s (wa (addr n)) = wa (bsz n)" "16 \<le> bsz n" "16 dvd bsz n"
      using nxt[OF onlyn(1)] by blast
    define e where "e = addr n + bsz n"
    have ok': "heap_ok s (xs @ [b, n] @ t) F epa" using ok n(1) by simp
    have comp': "all_listed (xs @ [b, n] @ t) F" using comp n(1) by simp
    have mid: "chain (addr b) [b, n] e" using n gb(3,4) by (simp add: e_def)
    have sz: "e - addr b = bsz n + bsz b" using n(3) by (simp add: e_def)
    obtain F' where F': "heap_ok (add_to_free (wa (addr b)) (write_block (wa (addr b))
          (wa (e - addr b)) False True (fold (\<lambda>c. remove_from_free (wa (addr c))) [n, b] s)))
          (xs @ [Blk (addr b) (e - addr b) False True] @ t) F' epa"
        "all_listed (xs @ [Blk (addr b) (e - addr b) False True] @ t) F'"
      using coalesce_merge[OF ok' mid _ _ comp', of "[n, b]"] n fb gb(3) by auto
    have "coalesce_block (wa (addr b)) s = (wa (addr b), add_to_free (wa (addr b))
        (write_block (wa (addr b)) (wa (e - addr b)) False True
          (fold (\<lambda>c. remove_from_free (wa (addr c))) [n, b] s)))"
      using onlyn
      by (simp add: coalesce_block_def Let_def r(1,2,4) na[unfolded n(3)[symmetric]]
          n(3)[symmetric] n(4) sz wa_add)
    moreover have "clo xs b = addr b" "cpre xs b = xs" "cpost ys = t"
      "cblk xs b ys = Blk (addr b) (e - addr b) False True"
      using onlyn n(1,2)
      by (simp_all add: clo_def cpre_def cpost_def cblk_def chi_def e_def)
    ultimately show ?thesis using F' by auto
  next
    case onlyp
    obtain xs0 p where p: "xs = xs0 @ [p]" "\<not> alc p" "addr b = addr p + bsz p"
      "find_prev s (wa (addr b)) = wa (addr p)" "get_size s (wa (addr p)) = wa (bsz p)"
      "16 \<le> bsz p" "16 dvd bsz p"
      using prev[OF onlyp(2)] by blast
    define e where "e = addr b + bsz b"
    have ok': "heap_ok s (xs0 @ [p, b] @ ys) F epa" using ok p(1) by simp
    have comp': "all_listed (xs0 @ [p, b] @ ys) F" using comp p(1) by simp
    have mid: "chain (addr p) [p, b] e" using p gb(3,4) by (simp add: e_def)
    have sz: "e - addr p = bsz b + bsz p" using p(3) by (simp add: e_def)
    obtain F' where F': "heap_ok (add_to_free (wa (addr p)) (write_block (wa (addr p))
          (wa (e - addr p)) False True (fold (\<lambda>c. remove_from_free (wa (addr c))) [p, b] s)))
          (xs0 @ [Blk (addr p) (e - addr p) False True] @ ys) F' epa"
        "all_listed (xs0 @ [Blk (addr p) (e - addr p) False True] @ ys) F'"
      using coalesce_merge[OF ok' mid _ _ comp', of "[p, b]"] p fb by auto
    have "coalesce_block (wa (addr b)) s = (wa (addr p), add_to_free (wa (addr p))
        (write_block (wa (addr p)) (wa (e - addr p)) False True
          (fold (\<lambda>c. remove_from_free (wa (addr c))) [p, b] s)))"
      using onlyp
      by (simp add: coalesce_block_def Let_def r(1,2,4) na p(4,5) sz wa_add)
    moreover have "clo xs b = addr p" "cpre xs b = xs0" "cpost ys = ys"
      "cblk xs b ys = Blk (addr p) (e - addr p) False True"
      using onlyp p(1,2)
      by (auto simp add: clo_def cpre_def cpost_def cblk_def chi_def e_def nf_def
          split: list.splits)
    ultimately show ?thesis using F' by auto
  next
    case none
    have "coalesce_block (wa (addr b)) s = (wa (addr b), s)"
      using none by (simp add: coalesce_block_def Let_def r(1,2,4) na)
    moreover have "clo xs b = addr b" "cpre xs b = xs" "cpost ys = ys" "cblk xs b ys = b"
      using none fb
      by (auto simp add: clo_def cpre_def cpost_def cblk_def chi_def nf_def
          split: list.splits intro: blk.expand)
    ultimately show ?thesis using ok comp by auto
  qed
qed

lemma pa_cons_append:
  "pa_cons p (xs @ ys) e \<longleftrightarrow>
     pa_cons p xs (if xs = [] then p else alc (last xs)) \<and>
     pa_cons (if xs = [] then p else alc (last xs)) ys e"
  by (induction xs arbitrary: p) auto

lemma no_adj_append:
  "no_adj (xs @ ys) \<longleftrightarrow>
     no_adj xs \<and> no_adj ys \<and> (xs = [] \<or> ys = [] \<or> alc (last xs) \<or> alc (hd ys))"
proof (induction xs rule: no_adj.induct)
  case (2 b)
  then show ?case by (cases ys) auto
qed auto

lemma no_adj_Cons: "no_adj (b # ys) \<longleftrightarrow> no_adj ys \<and> (ys = [] \<or> alc b \<or> alc (hd ys))"
  by (cases ys) auto

lemma pa_cons_upd_pa: "pa_cons q ys e \<Longrightarrow> pa_cons p (upd_pa p ys) (if ys = [] then p else e)"
  by (cases ys) auto

lemma no_adj_upd_pa [simp]: "no_adj (upd_pa p ys) = no_adj ys"
  by (cases ys) (auto simp add: no_adj_Cons)

lemma upd_pa_Nil [simp]: "upd_pa p ys = [] \<longleftrightarrow> ys = []"
  by (cases ys) auto

lemma hd_upd_pa [simp]: "alc (hd (upd_pa p ys)) = alc (hd ys)"
  by (cases ys) auto

lemma all_listed_upd_pa: "all_listed (xs @ upd_pa p ys) F = all_listed (xs @ ys) F"
  by (cases ys) (auto simp add: all_listed_def)

lemma allocd_upd_pa: "allocd (xs @ upd_pa p ys) = allocd (xs @ ys)"
  by (cases ys) (force simp add: allocd_def)+

lemma free_blks_pure:
  assumes pa: "pa_cons True (xs @ b # ys) epa" and na: "no_adj (xs @ b # ys)" and al: "alc b"
  shows "pa_cons True (free_blks xs b ys) (free_epa ys epa)" "no_adj (free_blks xs b ys)"
    "allocd (xs @ b # ys) - {addr b} \<subseteq> allocd (free_blks xs b ys)"
proof -
  define b1 where "b1 = Blk (addr b) (bsz b) False (pal b)"
  have e: "free_blks xs b ys = cpre xs b1 @ cblk xs b1 ys # upd_pa False (cpost ys)"
    by (simp add: free_blks_def b1_def Let_def)
  have pb: "pal b1 = pal b" by (simp add: b1_def)
  have x1: "pa_cons True xs (pal b)" "pal b = (xs = [] \<or> alc (last xs))" "no_adj xs"
    using pa na by (auto simp add: pa_cons_append no_adj_append)
  have y1: "pa_cons True ys epa" "no_adj ys" using pa na al
    by (auto simp add: pa_cons_append no_adj_append no_adj_Cons)
  have pre: "pa_cons True (cpre xs b1) True \<and> no_adj (cpre xs b1) \<and>
      (cpre xs b1 = [] \<or> alc (last (cpre xs b1))) \<and>
      (\<forall>c. c \<in> set xs \<longrightarrow> alc c \<longrightarrow> c \<in> set (cpre xs b1))"
  proof -
    show ?thesis
    proof (cases "pal b")
      case True
      then show ?thesis using x1 by (auto simp add: cpre_def pb)
    next
      case False
      then obtain xs0 p where xs: "xs = xs0 @ [p]" and fp: "\<not> alc p"
        using x1(2) by (cases xs rule: rev_cases) auto
      then show ?thesis using x1 False
        by (auto simp add: cpre_def pb pa_cons_append no_adj_append split: if_splits)
    qed
  qed
  have post: "pa_cons False (upd_pa False (cpost ys)) (free_epa ys epa) \<and> no_adj (cpost ys) \<and>
      (cpost ys = [] \<or> alc (hd (cpost ys))) \<and>
      (\<forall>c. c \<in> set ys \<longrightarrow> alc c \<longrightarrow> c \<in> set (cpost ys))"
  proof (cases ys)
    case Nil
    then show ?thesis by (simp add: cpost_def free_epa_def)
  next
    case (Cons n t)
    show ?thesis
    proof (cases "alc n")
      case True
      then show ?thesis using y1 Cons by (auto simp add: cpost_def free_epa_def)
    next
      case False
      then have "pa_cons False t epa" using y1(1) Cons by simp
      from pa_cons_upd_pa[OF this, of False]
      show ?thesis using y1(2) Cons False
        by (auto simp add: cpost_def free_epa_def no_adj_Cons)
    qed
  qed
  have cb: "\<not> alc (cblk xs b1 ys)" "pal (cblk xs b1 ys)" by (simp_all add: cblk_def)
  show "pa_cons True (free_blks xs b ys) (free_epa ys epa)"
    unfolding e using pre post cb by (auto simp add: pa_cons_append)
  show "no_adj (free_blks xs b ys)"
    unfolding e using pre post cb by (auto simp add: no_adj_append no_adj_Cons)
  show "allocd (xs @ b # ys) - {addr b} \<subseteq> allocd (free_blks xs b ys)"
  proof
    fix a assume a: "a \<in> allocd (xs @ b # ys) - {addr b}"
    then obtain c where c: "c \<in> set xs \<or> c \<in> set ys" "alc c" "addr c = a"
      by (auto simp add: allocd_def)
    then have "c \<in> set (cpre xs b1) \<or> c \<in> set (cpost ys)" using pre post by blast
    then have "a \<in> allocd (cpre xs b1 @ cpost ys)" using c(2,3) by (auto simp add: allocd_def)
    then have "a \<in> allocd (cpre xs b1 @ upd_pa False (cpost ys))" by (simp add: allocd_upd_pa)
    then show "a \<in> allocd (free_blks xs b ys)" unfolding e by (auto simp add: allocd_def)
  qed
qed

lemma free_ok:
  assumes inv: "hinv s (xs @ b # ys) F epa" and al: "alc b"
  shows "\<exists>F'. hinv (free (wa (addr b + 8)) s) (free_blks xs b ys) F' (free_epa ys epa)"
proof -
  have ok: "heap_ok s (xs @ b # ys) F epa" and comp: "all_listed (xs @ b # ys) F"
    and pa: "pa_cons True (xs @ b # ys) epa" and na: "no_adj (xs @ b # ys)"
    using inv by (simp_all add: hinv_def)
  have bin: "b \<in> set (xs @ b # ys)" by simp
  note g = heap_ok_geom[OF ok bin] and h = heap_ok_block[OF ok bin]
  define b1 where "b1 = Blk (addr b) (bsz b) False (pal b)"
  define s1 where "s1 = write_block (wa (addr b)) (wa (bsz b)) False (pal b) s"
  define s2 where "s2 = add_to_free (wa (addr b)) s1"
  have p0: "wa (addr b + 8) \<noteq> 0" using wa_eq_0[of "addr b + 8"] g(7) g(3) by simp
  have ph: "payload_to_header (wa (addr b + 8)) = wa (addr b)"
    by (simp add: payload_to_header_def wa_simps wsize_def)
  have rds: "get_size s (wa (addr b)) = wa (bsz b)" "get_prev_alloc s (wa (addr b)) = pal b"
    using hdr_ok_reads[OF h(1)] by simp_all
  have ok': "heap_ok s (xs @ [b] @ ys) F epa" using ok by simp
  have chb: "chain (addr b) [b] (addr b + bsz b)" using g by simp
  have unl: "addr c \<notin> set (F (bucket (bsz c)))" if "c \<in> set [b]" for c
    using heap_ok_alloc_unlisted[OF ok bin al le_less_trans[OF bucket_le, of 15]] that by simp
  have ok1: "heap_ok s1 (xs @ [b1] @ ys) F epa"
    using write_block_ok[OF ok' chb _ unl, of False "pal b"] by (simp add: s1_def b1_def)
  have b1in: "b1 \<in> set (xs @ [b1] @ ys)" by simp
  have nl: "addr b \<notin> set (F (bucket (bsz b)))" using unl by simp
  define F2 where "F2 = F(bucket (bsz b) := addr b # F (bucket (bsz b)))"
  have ok2: "heap_ok s2 (xs @ b1 # ys) F2 epa"
    using add_to_free_ok[OF ok1 b1in] nl by (simp add: b1_def s2_def F2_def)
  have comp2: "all_listed (xs @ b1 # ys) F2"
    using comp by (auto simp add: all_listed_def F2_def b1_def)
  have pc: "pal b1 \<longleftrightarrow> xs = [] \<or> alc (last xs)"
    using pa by (auto simp add: pa_cons_append b1_def)
  have fb1: "\<not> alc b1" by (simp add: b1_def)
  obtain s3 F3 where c3: "coalesce_block (wa (addr b1)) s2 = (wa (clo xs b1), s3)"
    and ok3: "heap_ok s3 (cpre xs b1 @ cblk xs b1 ys # cpost ys) F3 epa"
    and comp3: "all_listed (cpre xs b1 @ cblk xs b1 ys # cpost ys) F3"
    using coalesce_block_ok[OF ok2 fb1 comp2 pc] by blast
  have ab: "addr (cblk xs b1 ys) = clo xs b1" by (simp add: cblk_def)
  have ok4: "heap_ok (update_next (wa (clo xs b1)) False s3) (free_blks xs b ys) F3
      (free_epa ys epa)"
    using update_next_ok[OF ok3, of False]
    by (simp add: ab free_blks_def Let_def b1_def[symmetric] free_epa_def)
  have comp4: "all_listed (free_blks xs b ys) F3"
    using comp3 all_listed_upd_pa[of "cpre xs b1 @ [cblk xs b1 ys]" False "cpost ys" F3]
    by (simp add: free_blks_def Let_def b1_def[symmetric])
  have e: "free (wa (addr b + 8)) s = update_next (wa (clo xs b1)) False s3"
    using c3 by (simp add: free_def Let_def p0 ph rds s1_def[symmetric] s2_def[symmetric] b1_def)
  show ?thesis
    unfolding hinv_def e using ok4 comp4 free_blks_pure(1,2)[OF pa na al] by blast
qed

lemma epi_pack: "epi_ok (pack 0 True False) False"
proof -
  have "pack 0 True False AND NOT 15 = 0"
    by (rule bit_word_eqI) (auto simp add: bits_pack bit_simps bit_consts)
  then show ?thesis
    by (simp add: epi_ok_def extract_alloc_bit extract_prev_alloc_bit extract_mini_bit
        extract_size_def size_mask_def bits_pack)
qed

lemma rd_brk [simp]: "rd (s\<lparr>mem_brk := v\<rparr>) x = rd s x"
  by (simp add: rd_def)

lemma block_ok_brk [simp]: "block_ok (s\<lparr>mem_brk := v\<rparr>) F b = block_ok s F b"
  by (simp add: block_ok_def ftr_ok_def lnk_ok_def)

lemma write_epilogue_ok:
  assumes wf: "heap_wf s bs F"
  shows "heap_ok (write_epilogue (wa (unat (mem_brk s) - 8)) s) bs F False"
proof -
  define c where "c = unat (mem_brk s) - 8"
  define s' where "s' = write_epilogue (wa c) s"
  have cc: "cellp c" using heap_wf_epi_cellp(1)[OF wf] by (simp add: c_def)
  have rd': "rd s' x = (if x = c then pack 0 True False else rd s x)" if "cellp x" for x
    using rd_store_word[OF that cc] by (simp add: s'_def write_epilogue_def put_header_def)
  have blk: "block_ok s' F b" if b: "b \<in> set bs" for b
  proof (rule block_ok_frame[of s F b s' F])
    note g = heap_wf_geom[OF wf b]
    show "block_ok s F b" using wf b by (simp add: heap_wf_def)
    show "16 \<le> bsz b" "16 dvd bsz b" "8 dvd addr b" using g by simp_all
    show "rd s' x = rd s x" if "8 dvd x" "addr b \<le> x" "x < addr b + bsz b" for x
    proof -
      have "cellp x" using heap_wf_cellp[OF wf b that(1,3)] .
      moreover have "x \<noteq> c" using that(3) g(2) by (simp add: c_def)
      ultimately show ?thesis by (simp add: rd')
    qed
  qed simp
  have "heap_wf s' bs F"
    using wf blk unfolding heap_wf_def by (simp add: s'_def)
  moreover have "epi_ok (rd s' (unat (mem_brk s') - 8)) False"
    using rd'[OF cc] epi_pack by (simp add: s'_def c_def)
  ultimately show ?thesis by (simp add: heap_ok_def s'_def c_def)
qed

lemma grow_wf:
  assumes ok: "heap_ok s bs F epa" and m: "16 \<le> m" "16 dvd m"
    and fit: "unat (mem_brk s) + m \<le> unat (mem_max_addr s)"
  shows "heap_wf (write_block (wa (unat (mem_brk s) - 8)) (wa m) False epa
            (s\<lparr>mem_brk := mem_brk s + wa m\<rparr>))
          (bs @ [Blk (unat (mem_brk s) - 8) m False epa]) F"
    and "unat (mem_brk s + wa m) = unat (mem_brk s) + m"
proof -
  define a where "a = unat (mem_brk s) - 8"
  define nb where "nb = Blk a m False epa"
  define s1 where "s1 = s\<lparr>mem_brk := mem_brk s + wa m\<rparr>"
  define s2 where "s2 = write_block (wa a) (wa m) False epa s1"
  note wf = heap_ok_wf[OF ok]
  note ec = heap_wf_epi_cellp[OF wf]
  have mx: "unat (mem_max_addr s) < 2 ^ 64" by (rule unat_lt64)
  have m64: "m < 2 ^ 64" using fit mx by simp
  have brk: "unat (mem_brk s + wa m) = unat (mem_brk s) + m"
    using fit mx by (simp add: unat_word_ariths unat_wa m64)
  show "unat (mem_brk s + wa m) = unat (mem_brk s) + m" by (rule brk)
  have a8: "a + 8 = unat (mem_brk s)" using ec(2) by (simp add: a_def)
  have d8: "8 dvd a" "8 dvd m" using ec(1) m(2) by (auto simp add: cellp_def a_def elim!: dvdE)
  have ca: "cellp a" using ec(1) by (simp add: a_def)
  have cf: "cellp (a + m - 8)" using d8 m(1) fit mx a8 by (simp add: cellp_def dvd_diff_nat)
  have rd2: "rd s2 x = (if m \<noteq> 16 \<and> x = a + m - 8 then pack (wa m) False epa
        else if x = a then pack (wa m) False epa else rd s x)" if "cellp x" for x
    unfolding s2_def using rd_write_block[OF ca cf that m(2) m64 m(1), of False epa s1]
    by (simp add: s1_def)
  have ch: "chain (unat (heap_start s)) bs a" using wf by (simp add: heap_wf_def a_def)
  have old: "block_ok s2 F b" if b: "b \<in> set bs" for b
  proof (rule block_ok_frame[of s F b s2 F])
    note g = heap_wf_geom[OF wf b]
    show "block_ok s F b" using wf b by (simp add: heap_wf_def)
    show "16 \<le> bsz b" "16 dvd bsz b" "8 dvd addr b" using g by simp_all
    show "rd s2 x = rd s x" if "8 dvd x" "addr b \<le> x" "x < addr b + bsz b" for x
    proof -
      have "cellp x" using heap_wf_cellp[OF wf b that(1,3)] .
      moreover have "x < a" using that(3) g(2) by (simp add: a_def)
      moreover from this have "x \<noteq> a + m - 8" "x \<noteq> a" using m(1) by linarith+
      ultimately show ?thesis by (simp add: rd2)
    qed
  qed simp
  have nl: "a \<notin> set (F i)" if i: "i < 15" for i
  proof
    assume "a \<in> set (F i)"
    then obtain c where c: "c \<in> set bs" "addr c = a" using heap_wf_listed[OF wf i] by blast
    show False using heap_wf_geom(2,3)[OF wf c(1)] c(2) by (simp add: a_def)
  qed
  have new: "block_ok s2 F nb"
  proof -
    have "32 \<le> m" if "m \<noteq> 16" using that m by (auto elim!: dvdE)
    then have "rd s2 a = pack (wa m) False epa" using rd2[OF ca] by auto
    then have "hdr_ok (rd s2 (addr nb)) nb"
      using hdr_ok_pack[OF m(2) m64] by (simp add: nb_def)
    moreover have "ftr_ok s2 nb"
      using rd2[OF cf] hdr_ok_pack[OF m(2) m64, of False epa a]
      by (auto simp add: ftr_ok_def nb_def hdr_ok_def)
    moreover have "lnk_ok s2 (F (bucket m)) nb"
      using nl[OF le_less_trans[OF bucket_le, of 15]] by (simp add: lnk_ok_def nb_def)
    ultimately show ?thesis by (simp add: block_ok_def nb_def)
  qed
  have lists: "lists_ok (bs @ [nb]) F"
    using wf unfolding heap_wf_def lists_ok_def by auto
  have "heap_wf s2 (bs @ [nb]) F"
    unfolding heap_wf_def
  proof (intro conjI)
    show "unat (heap_start s2) mod 16 = 8" using wf by (simp add: heap_wf_def s2_def s1_def)
    show "unat (heap_start s2) + 8 \<le> unat (mem_brk s2)"
      using wf brk by (simp add: heap_wf_def s2_def s1_def)
    show "unat (mem_brk s2) \<le> unat (mem_max_addr s2)"
      using fit brk by (simp add: s2_def s1_def)
    show "chain (unat (heap_start s2)) (bs @ [nb]) (unat (mem_brk s2) - 8)"
      using ch m brk a8 by (simp add: chain_append s2_def s1_def nb_def)
    show "\<forall>b \<in> set (bs @ [nb]). block_ok s2 F b" using old new by auto
    show "lists_ok (bs @ [nb]) F" by (rule lists)
    show "\<forall>i<15. free_root s2 i = wa (hd0 (F i))"
      using wf by (simp add: heap_wf_def s2_def s1_def)
  qed
  then show "heap_wf (write_block (wa (unat (mem_brk s) - 8)) (wa m) False epa
            (s\<lparr>mem_brk := mem_brk s + wa m\<rparr>))
          (bs @ [Blk (unat (mem_brk s) - 8) m False epa]) F"
    by (simp add: s2_def s1_def nb_def a_def)
qed

lemma sint_wa: "m < 2 ^ 63 \<Longrightarrow> \<not> sint (wa m) < 0"
proof -
  assume m: "m < 2 ^ 63"
  have "\<not> bit m 63" using m by (simp add: bit_iff_odd)
  then have "\<not> bit (wa m) (LENGTH(64) - Suc 0)" by (simp add: wa_def bit_simps)
  then show ?thesis unfolding bit_last_iff .
qed

lemma round_up_16:
  assumes "16 dvd m" "m < 2 ^ 64"
  shows "round_up (wa m) dsize = wa m"
proof -
  obtain k where k: "m = 16 * k" using assms(1) by (auto elim: dvdE)
  have m15: "m + 15 < 2 ^ 64" using assms(2) k by simp
  have "unat ((wa m + 15) div 16) = k"
    using m15 by (simp add: unat_div wa_simps unat_wa k)
  then have "(wa m + 15) div 16 = wa k" using wa_unat[of "(wa m + 15) div 16"] by simp
  then show ?thesis
    by (simp add: round_up_def dsize_def wsize_def k wa_def)
qed

lemma pa_cons_last: "pa_cons p bs e \<Longrightarrow> e = (if bs = [] then p else alc (last bs))"
  by (induction bs arbitrary: p) auto

lemma cpre_pure:
  assumes pa: "pa_cons True xs q" and na: "no_adj xs"
    and pc: "pal b \<longleftrightarrow> xs = [] \<or> alc (last xs)"
  shows "pa_cons True (cpre xs b) True" "no_adj (cpre xs b)"
    "cpre xs b = [] \<or> alc (last (cpre xs b))"
    "c \<in> set xs \<Longrightarrow> alc c \<Longrightarrow> c \<in> set (cpre xs b)"
proof -
  have "pa_cons True (cpre xs b) True \<and> no_adj (cpre xs b) \<and>
      (cpre xs b = [] \<or> alc (last (cpre xs b))) \<and>
      (\<forall>c. c \<in> set xs \<longrightarrow> alc c \<longrightarrow> c \<in> set (cpre xs b))"
  proof (cases "pal b")
    case True
    then have "q" using pc pa_cons_last[OF pa] by (auto split: if_splits)
    then show ?thesis using pa na pc True
      by (auto simp add: cpre_def)
  next
    case False
    then obtain xs0 p where xs: "xs = xs0 @ [p]" and fp: "\<not> alc p"
      using pc by (cases xs rule: rev_cases) auto
    then show ?thesis using pa na False
      by (auto simp add: cpre_def pa_cons_append no_adj_append split: if_splits)
  qed
  then show "pa_cons True (cpre xs b) True" "no_adj (cpre xs b)"
    "cpre xs b = [] \<or> alc (last (cpre xs b))"
    "c \<in> set xs \<Longrightarrow> alc c \<Longrightarrow> c \<in> set (cpre xs b)"
    by blast+
qed

lemma extend_heap_fail:
  assumes "sint (round_up sz0 dsize) < 0 \<or>
      unat (mem_max_addr s) < unat (mem_brk s) + unat (round_up sz0 dsize)"
  shows "extend_heap sz0 s = (0, s)"
  using assms by (simp add: extend_heap_def mem_sbrk_def Let_def)

lemma brk_unlisted:
  assumes wf: "heap_wf s bs F" and i: "i < 15"
  shows "unat (mem_brk s) - 8 \<notin> set (F i)"
proof
  assume "unat (mem_brk s) - 8 \<in> set (F i)"
  then obtain c where c: "c \<in> set bs" "addr c = unat (mem_brk s) - 8"
    using heap_wf_listed[OF wf i] by blast
  show False using heap_wf_geom(2,3)[OF wf c(1)] c(2) by simp
qed

lemma coalesce_block_fields [simp]:
  "heap_start (snd (coalesce_block b s)) = heap_start s"
  "mem_brk (snd (coalesce_block b s)) = mem_brk s"
  "mem_max_addr (snd (coalesce_block b s)) = mem_max_addr s"
  by (simp_all add: coalesce_block_def Let_def)

lemma extend_heap_ok:
  assumes inv: "hinv s bs F epa" and m: "16 \<le> m" "16 dvd m" "m < 2 ^ 63"
    and fit: "unat (mem_brk s) + m \<le> unat (mem_max_addr s)"
    and nb: "nb = Blk (unat (mem_brk s) - 8) m False epa"
  shows "\<exists>s' F'. extend_heap (wa m) s = (wa (clo bs nb), s') \<and>
      hinv s' (cpre bs nb @ [cblk bs nb []]) F' False \<and>
      heap_start s' = heap_start s \<and> mem_max_addr s' = mem_max_addr s \<and>
      unat (mem_brk s') = unat (mem_brk s) + m"
proof -
  have ok: "heap_ok s bs F epa" and comp: "all_listed bs F"
    and pa: "pa_cons True bs epa" and na: "no_adj bs"
    using inv by (simp_all add: hinv_def)
  note wf = heap_ok_wf[OF ok]
  note ec = heap_wf_epi_cellp[OF wf]
  define a where "a = unat (mem_brk s) - 8"
  have nb': "nb = Blk a m False epa" using nb by (simp add: a_def)
  define s1 where "s1 = s\<lparr>mem_brk := mem_brk s + wa m\<rparr>"
  define s2 where "s2 = write_block (wa a) (wa m) False epa s1"
  define s3 where "s3 = add_to_free (wa a) s2"
  define s4 where "s4 = write_epilogue (wa (a + m)) s3"
  have m64: "m < 2 ^ 64" using m(3) by simp
  have ru: "round_up (wa m) dsize = wa m" using round_up_16[OF m(2) m64] .
  have sb: "mem_sbrk (wa m) s = (mem_brk s, s1)"
    using sint_wa[OF m(3)] fit by (simp add: mem_sbrk_def unat_wa[OF m64] s1_def)
  have "unat (- 1 :: 64 word) mod 16 = 15" by (simp add: unsigned_minus_1_eq_mask mask_eq_exp_minus_1)
  then have "unat (mem_brk s) \<noteq> unat (- 1 :: 64 word)" using ec(3) by auto
  then have bn: "mem_brk s \<noteq> - 1" by auto
  have ba: "mem_brk s - 8 = wa a" using ec(2) wa_unat[of "mem_brk s"]
    by (metis a_def wa_minus_numeral)
  have pe: "get_prev_alloc s1 (wa a) = epa"
    using heap_ok_epi[OF ok]
    by (simp add: epi_ok_def get_prev_alloc_def get_header_def rd_def a_def s1_def)
  have wf2: "heap_wf s2 (bs @ [nb]) F" and brk: "unat (mem_brk s + wa m) = unat (mem_brk s) + m"
    using grow_wf[OF ok m(1,2) fit] by (simp_all add: s2_def s1_def a_def nb)
  have nbin: "nb \<in> set (bs @ [nb])" by simp
  have nl: "a \<notin> set (F (bucket m))"
    using brk_unlisted[OF wf le_less_trans[OF bucket_le, of 15]] by (simp add: a_def)
  define F3 where "F3 = F(bucket m := a # F (bucket m))"
  have wf3: "heap_wf s3 (bs @ [nb]) F3"
    using add_to_free_wf(1)[OF wf2 nbin] nl by (simp add: nb' s3_def F3_def)
  have fn: "find_next s3 (wa a) = wa (a + m)"
    using find_next_wa[OF heap_wf_block(1)[OF wf3 nbin]] by (simp add: nb')
  have b3: "unat (mem_brk s3) = unat (mem_brk s) + m"
    using brk by (simp add: s3_def s2_def s1_def)
  have am: "a + m = unat (mem_brk s3) - 8" using b3 ec(2) by (simp add: a_def)
  have ok4: "heap_ok s4 (bs @ nb # []) F3 False"
    using write_epilogue_ok[OF wf3] by (simp add: s4_def am)
  have comp4: "all_listed (bs @ nb # []) F3"
    using comp by (auto simp add: all_listed_def F3_def nb')
  have pc: "pal nb \<longleftrightarrow> bs = [] \<or> alc (last bs)"
    using pa_cons_last[OF pa] by (auto simp add: nb')
  have fb: "\<not> alc nb" by (simp add: nb')
  obtain s5 F5 where c5: "coalesce_block (wa (addr nb)) s4 = (wa (clo bs nb), s5)"
    and ok5: "heap_ok s5 (cpre bs nb @ cblk bs nb [] # cpost []) F5 False"
    and comp5: "all_listed (cpre bs nb @ cblk bs nb [] # cpost []) F5"
    using coalesce_block_ok[OF ok4 fb comp4 pc] by blast
  have e: "extend_heap (wa m) s = (wa (clo bs nb), s5)"
    using c5 bn
    by (simp add: extend_heap_def Let_def ru sb payload_to_header_def ba pe
        s2_def[symmetric] s3_def[symmetric] fn s4_def[symmetric] nb')
  note pre = cpre_pure[OF pa na pc]
  have cb: "\<not> alc (cblk bs nb [])" "pal (cblk bs nb [])" by (simp_all add: cblk_def)
  have "pa_cons True (cpre bs nb @ [cblk bs nb []]) False"
    using pre(1,3) cb by (auto simp add: pa_cons_append)
  moreover have "no_adj (cpre bs nb @ [cblk bs nb []])"
    using pre(2,3) by (auto simp add: no_adj_append)
  ultimately have "hinv s5 (cpre bs nb @ [cblk bs nb []]) F5 False"
    using ok5 comp5 by (simp add: hinv_def cpost_def)
  moreover have "heap_start s5 = heap_start s \<and> mem_max_addr s5 = mem_max_addr s \<and>
      unat (mem_brk s5) = unat (mem_brk s) + m"
  proof -
    have "s5 = snd (coalesce_block (wa (addr nb)) s4)" using c5 by simp
    then show ?thesis using brk by (simp add: s4_def s3_def s2_def s1_def)
  qed
  ultimately show ?thesis using e by blast
qed

lemma next_in_split: "distinct (pre @ a # suf) \<Longrightarrow> next_in (pre @ a # suf) a = hd0 suf"
  by (induction pre) auto

lemma listed_facts:
  assumes ok: "heap_ok s bs F epa" and k: "k < 15" and a: "a \<in> set (F k)"
  shows "0 < a" "a < 2 ^ 64" "wa a \<noteq> 0"
    "get_next_free s (wa a) = wa (next_in (F k) a)"
    "\<exists>b \<in> set bs. addr b = a \<and> \<not> alc b \<and> bucket (bsz b) = k \<and>
        get_size s (wa a) = wa (bsz b) \<and> unat (get_size s (wa a)) = bsz b \<and>
        get_alloc s (wa a) = False"
proof -
  obtain b where b: "b \<in> set bs" "addr b = a" "\<not> alc b" "bucket (bsz b) = k"
    using heap_ok_listed[OF ok k a] by blast
  note g = heap_ok_geom[OF ok b(1)] and h = hdr_ok_reads[OF heap_ok_block(1)[OF ok b(1)]]
  show "0 < a" "a < 2 ^ 64" using g(8,10) b(2) by simp_all
  then show "wa a \<noteq> 0" using wa_eq_0[of a] by simp
  have inl: "addr b \<in> set (F (bucket (bsz b)))" using a b by simp
  show "get_next_free s (wa a) = wa (next_in (F k) a)"
    using heap_ok_links(1)[OF ok b(1) inl] b by simp
  show "\<exists>b \<in> set bs. addr b = a \<and> \<not> alc b \<and> bucket (bsz b) = k \<and>
        get_size s (wa a) = wa (bsz b) \<and> unat (get_size s (wa a)) = bsz b \<and>
        get_alloc s (wa a) = False"
    using b h(1,2) unat_wa[OF g(9)] by (intro bexI[of _ b]) auto
qed

lemma good_fit_nonzero:
  assumes "heap_ok s bs F epa" "k < 15" "good_fit s n (F k) r"
  shows "r \<noteq> 0"
  using assms listed_facts(3)[OF assms(1,2)] by (auto simp add: good_fit_def)

lemma find_fit_loop_ok:
  assumes ok: "heap_ok s bs F epa" and k: "k < 15" and n64: "n < 2 ^ 64"
  shows "F k = pre @ suf \<Longrightarrow> minb = 0 \<or> good_fit s n (F k) minb \<Longrightarrow>
     \<exists>fl r. find_fit_loop s (wa n) (wa (hd0 suf)) minb checked = Some (fl, r) \<and>
        (r = 0 \<longrightarrow> minb = 0 \<and> \<not> fl \<and> (\<forall>a \<in> set suf. unat (get_size s (wa a)) < n)) \<and>
        (r \<noteq> 0 \<longrightarrow> good_fit s n (F k) r)"
proof (induction suf arbitrary: pre minb checked)
  case Nil
  show ?case using Nil.prems(2)
    by (subst find_fit_loop.simps) auto
next
  case (Cons a suf)
  have ain: "a \<in> set (F k)" using Cons.prems(1) by simp
  note lf = listed_facts[OF ok k ain]
  have dst: "distinct (pre @ a # suf)" using heap_ok_distinct[OF ok k] Cons.prems(1) by simp
  have nx: "get_next_free s (wa a) = wa (hd0 suf)"
    using lf(4) next_in_split[OF dst] Cons.prems(1) by simp
  have split': "F k = (pre @ [a]) @ suf" using Cons.prems(1) by simp
  define g where "g = get_size s (wa a)"
  have cmp: "wa n \<le> g \<longleftrightarrow> n \<le> unat g"
    by (simp add: word_le_nat_alt unat_wa[OF n64])
  show ?case
  proof (cases "n \<le> unat g")
    case True
    define min1 where "min1 = (if minb = 0 then wa a else minb)"
    define min2 where "min2 = (if g < get_size s min1 then wa a else min1)"
    have ga: "good_fit s n (F k) (wa a)" using ain True by (auto simp add: good_fit_def g_def)
    have g2: "good_fit s n (F k) min2"
      using ga Cons.prems(2) by (auto simp add: min2_def min1_def)
    have nz: "min2 \<noteq> 0" using good_fit_nonzero[OF ok k g2] .
    have e: "find_fit_loop s (wa n) (wa a) minb checked =
        (if 9 <s checked then Some (True, min2)
         else find_fit_loop s (wa n) (wa (hd0 suf)) min2 (checked + 1))"
      using True cmp lf(3) nz
      by (subst find_fit_loop.simps)
        (simp add: g_def[symmetric] Let_def min1_def[symmetric] min2_def[symmetric] nx)
    show ?thesis
    proof (cases "9 <s checked")
      case True
      then show ?thesis using e nz g2 by auto
    next
      case False
      obtain fl r where r: "find_fit_loop s (wa n) (wa (hd0 suf)) min2 (checked + 1) = Some (fl, r)"
        "r = 0 \<longrightarrow> min2 = 0 \<and> \<not> fl \<and> (\<forall>a \<in> set suf. unat (get_size s (wa a)) < n)"
        "r \<noteq> 0 \<longrightarrow> good_fit s n (F k) r"
        using Cons.IH[OF split', of min2 "checked + 1"] g2 by blast
      then show ?thesis using e False nz by auto
    qed
  next
    case False
    have e: "find_fit_loop s (wa n) (wa a) minb checked =
        find_fit_loop s (wa n) (wa (hd0 suf)) minb (checked + 1)"
      using False cmp lf(3)
      by (subst find_fit_loop.simps) (simp add: g_def[symmetric] nx)
    obtain fl r where r: "find_fit_loop s (wa n) (wa (hd0 suf)) minb (checked + 1) = Some (fl, r)"
      "r = 0 \<longrightarrow> minb = 0 \<and> \<not> fl \<and> (\<forall>a \<in> set suf. unat (get_size s (wa a)) < n)"
      "r \<noteq> 0 \<longrightarrow> good_fit s n (F k) r"
      using Cons.IH[OF split', of minb "checked + 1"] Cons.prems(2) by blast
    then show ?thesis using e False by (auto simp add: g_def)
  qed
qed

lemma root_wa:
  assumes ok: "heap_ok s bs F epa" and k: "k < 15"
  shows "get_root s (wa k) = wa (hd0 (F k))" "get_root s (wa k) = 0 \<longleftrightarrow> F k = []"
proof -
  have k64: "k < 2 ^ 64" using k by simp
  show r: "get_root s (wa k) = wa (hd0 (F k))"
    using heap_ok_wf[OF ok] k by (simp add: heap_wf_def get_root_def unat_wa[OF k64])
  show "get_root s (wa k) = 0 \<longleftrightarrow> F k = []"
  proof (cases "F k")
    case Nil
    then show ?thesis using r by (simp add: wa_def)
  next
    case (Cons a l)
    then have "a \<in> set (F k)" by simp
    from listed_facts(3)[OF ok k this] show ?thesis using r Cons by simp
  qed
qed

lemma find_fit_fallback_ok:
  assumes ok: "heap_ok s bs F epa"
  shows "i \<le> 15 \<Longrightarrow>
     (find_fit_fallback s (wa i) = 0 \<and> (\<forall>j. i \<le> j \<and> j < 15 \<longrightarrow> F j = [])) \<or>
     (\<exists>j. i \<le> j \<and> j < 15 \<and> F j \<noteq> [] \<and> find_fit_fallback s (wa i) = wa (hd0 (F j)))"
proof (induction "15 - i" arbitrary: i)
  case 0
  then have i: "i = 15" by simp
  have "find_fit_fallback s 15 = 0"
    by (subst find_fit_fallback.simps) (simp add: seglist_length_def)
  then show ?case using i by auto
next
  case (Suc d)
  then have i: "i < 15" by simp
  have i64: "i < 2 ^ 64" using i by simp
  have lt: "wa i < seglist_length"
    using i by (simp add: seglist_length_def word_less_nat_alt unat_wa[OF i64])
  have e: "find_fit_fallback s (wa i) =
      (if F i \<noteq> [] then wa (hd0 (F i)) else find_fit_fallback s (wa (Suc i)))"
    using lt root_wa[OF ok i]
    by (subst find_fit_fallback.simps) (simp add: wa_def add.commute)
  show ?case
  proof (cases "F i = []")
    case True
    have "d = 15 - Suc i" "Suc i \<le> 15" using Suc.hyps(2) i by simp_all
    from Suc.hyps(1)[OF this] show ?thesis
    proof
      assume a: "find_fit_fallback s (wa (Suc i)) = 0 \<and> (\<forall>j. Suc i \<le> j \<and> j < 15 \<longrightarrow> F j = [])"
      have "F j = []" if "i \<le> j" "j < 15" for j
        using a that True by (cases "j = i") auto
      then have "find_fit_fallback s (wa i) = 0 \<and> (\<forall>j. i \<le> j \<and> j < 15 \<longrightarrow> F j = [])"
        using e True a by simp
      then show ?thesis by blast
    next
      assume "\<exists>j. Suc i \<le> j \<and> j < 15 \<and> F j \<noteq> [] \<and>
          find_fit_fallback s (wa (Suc i)) = wa (hd0 (F j))"
      then obtain j where "Suc i \<le> j" "j < 15" "F j \<noteq> []"
        "find_fit_fallback s (wa (Suc i)) = wa (hd0 (F j))" by blast
      then have "i \<le> j \<and> j < 15 \<and> F j \<noteq> [] \<and> find_fit_fallback s (wa i) = wa (hd0 (F j))"
        using e True by simp
      then show ?thesis by blast
    qed
  next
    case False
    then show ?thesis using e i by auto
  qed
qed

lemma good_fit_block:
  assumes ok: "heap_ok s bs F epa" and k: "k < 15" and g: "good_fit s n (F k) r"
  shows "\<exists>b \<in> set bs. r = wa (addr b) \<and> \<not> alc b \<and> addr b \<in> set (F (bucket (bsz b))) \<and>
      n \<le> bsz b"
proof -
  obtain a where a: "a \<in> set (F k)" "r = wa a" "n \<le> unat (get_size s (wa a))"
    using g by (auto simp add: good_fit_def)
  obtain b where "b \<in> set bs" "addr b = a" "\<not> alc b" "bucket (bsz b) = k"
    "unat (get_size s (wa a)) = bsz b"
    using listed_facts(5)[OF ok k a(1)] by blast
  then show ?thesis using a by (intro bexI[of _ b]) auto
qed

lemma find_fit_ok:
  assumes ok: "heap_ok s bs F epa" and n64: "n < 2 ^ 64"
  shows "\<exists>r. find_fit s (wa n) = Some r \<and>
     (r \<noteq> 0 \<longrightarrow> (\<exists>b \<in> set bs. r = wa (addr b) \<and> \<not> alc b \<and>
          addr b \<in> set (F (bucket (bsz b))) \<and> n \<le> bsz b)) \<and>
     (r = 0 \<longrightarrow> (\<forall>j a. bucket n \<le> j \<and> j < 15 \<and> a \<in> set (F j) \<longrightarrow>
          unat (get_size s (wa a)) < n))"
proof -
  define k where "k = bucket n"
  have k: "k < 15" using bucket_le[of n] by (simp add: k_def)
  have ind: "get_seglist_ind (wa n) = wa k"
    using unat_seglist_ind_wa[OF n64] wa_unat[of "get_seglist_ind (wa n)"] by (simp add: k_def)
  obtain fl r where l: "find_fit_loop s (wa n) (wa (hd0 (F k))) 0 0 = Some (fl, r)"
    and r0: "r = 0 \<longrightarrow> \<not> fl \<and> (\<forall>a \<in> set (F k). unat (get_size s (wa a)) < n)"
    and r1: "r \<noteq> 0 \<longrightarrow> good_fit s n (F k) r"
    using find_fit_loop_ok[OF ok k n64, of "[]" "F k" 0 0] by auto
  show ?thesis
  proof (cases "r = 0")
    case False
    then have "find_fit s (wa n) = Some r"
      using l by (simp add: find_fit_def Let_def ind root_wa(1)[OF ok k] split: bool.splits)
    then show ?thesis using False good_fit_block[OF ok k] r1 by simp
  next
    case True
    have suc: "wa k + 1 = wa (Suc k)" by (simp add: wa_def)
    have e: "find_fit s (wa n) = Some (find_fit_fallback s (wa (Suc k)))"
      using l r0 True by (simp add: find_fit_def Let_def ind root_wa(1)[OF ok k] suc)
    have "Suc k \<le> 15" using k by simp
    from find_fit_fallback_ok[OF ok this] show ?thesis
    proof (elim disjE exE conjE)
      assume z: "find_fit_fallback s (wa (Suc k)) = 0" "\<forall>j. Suc k \<le> j \<and> j < 15 \<longrightarrow> F j = []"
      have "unat (get_size s (wa a)) < n" if "k \<le> j" "j < 15" "a \<in> set (F j)" for j a
      proof (cases "j = k")
        case True
        then show ?thesis using r0 \<open>r = 0\<close> that by simp
      next
        case False
        then have "F j = []" using z(2) that by simp
        then show ?thesis using that by simp
      qed
      then show ?thesis using e z(1) unfolding k_def by auto
    next
      fix j assume j: "Suc k \<le> j" "j < 15" "F j \<noteq> []"
        "find_fit_fallback s (wa (Suc k)) = wa (hd0 (F j))"
      then have hin: "hd0 (F j) \<in> set (F j)" by (cases "F j") auto
      obtain b where b: "b \<in> set bs" "addr b = hd0 (F j)" "\<not> alc b" "bucket (bsz b) = j"
        using listed_facts(5)[OF ok j(2) hin] by blast
      have "n \<le> bsz b"
      proof (rule ccontr)
        assume "\<not> n \<le> bsz b"
        then have "bucket (bsz b) \<le> bucket n" by (intro bucket_mono) simp
        then show False using b(4) j(1) by (simp add: k_def)
      qed
      moreover have "wa (hd0 (F j)) \<noteq> 0" using listed_facts(3)[OF ok j(2) hin] .
      moreover have "\<exists>c \<in> set bs. wa (hd0 (F j)) = wa (addr c) \<and> \<not> alc c \<and>
          addr c \<in> set (F (bucket (bsz c))) \<and> n \<le> bsz c"
        using b hin calculation(1) by (intro bexI[of _ b]) auto
      ultimately show ?thesis using e j(4)
        by (intro exI[of _ "wa (hd0 (F j))"]) simp
    qed
  qed
qed

lemma heap_ok_far:
  assumes ok: "heap_ok s (xs @ b # ys) F epa" and c: "c \<in> set xs \<or> c \<in> set ys"
  shows "addr c \<noteq> addr b"
proof -
  have ch: "chain (unat (heap_start s)) (xs @ b # ys) (unat (mem_brk s) - 8)"
    using ok by (simp add: heap_ok_def heap_wf_def)
  then have cx: "chain (unat (heap_start s)) xs (addr b)" and b16: "16 \<le> bsz b"
    and cy: "chain (addr b + bsz b) ys (unat (mem_brk s) - 8)"
    by (simp_all add: chain_split)
  from c show ?thesis
  proof
    assume c: "c \<in> set xs"
    show ?thesis using chain_before[OF cx c] chain_mem[OF cx c] by auto
  next
    assume c: "c \<in> set ys"
    show ?thesis using chain_after[OF cy c] b16 by auto
  qed
qed

lemma place_pure:
  assumes pa: "pa_cons True (xs @ b # ys) epa" and na: "no_adj (xs @ b # ys)" and fb: "\<not> alc b"
  shows "pa_cons True (place_blks xs (addr b) (bsz b) n ys) (place_epa (bsz b) n ys epa)"
    "no_adj (place_blks xs (addr b) (bsz b) n ys)"
    "insert (addr b) (allocd (xs @ b # ys)) \<subseteq> allocd (place_blks xs (addr b) (bsz b) n ys)"
proof -
  have x: "pa_cons True xs (pal b)" "no_adj xs" "xs = [] \<or> alc (last xs)"
    using pa na fb by (auto simp add: pa_cons_append no_adj_append)
  then have pb: "pal b" using pa_cons_last[OF x(1)] by (auto split: if_splits)
  have y: "pa_cons False ys epa" "no_adj ys" "ys = [] \<or> alc (hd ys)"
    using pa na fb by (auto simp add: pa_cons_append no_adj_append no_adj_Cons)
  have x': "pa_cons True xs True" using x(1) pb by simp
  have m: "(if xs = [] then True else alc (last xs)) = True" using x(3) by auto
  show "pa_cons True (place_blks xs (addr b) (bsz b) n ys) (place_epa (bsz b) n ys epa)"
    using x' y(1) pa_cons_upd_pa[OF y(1), of True]
    by (simp add: place_blks_def place_epa_def pa_cons_append m)
  show "no_adj (place_blks xs (addr b) (bsz b) n ys)"
    using x(2,3) y(2,3) by (auto simp add: place_blks_def no_adj_append no_adj_Cons)
  show "insert (addr b) (allocd (xs @ b # ys)) \<subseteq> allocd (place_blks xs (addr b) (bsz b) n ys)"
  proof (cases "16 \<le> bsz b - n")
    case True
    then show ?thesis by (auto simp add: place_blks_def allocd_def)
  next
    case False
    have "allocd (xs @ b # ys) \<subseteq> allocd ((xs @ [Blk (addr b) (bsz b) True True]) @ ys)"
      by (auto simp add: allocd_def)
    also have "\<dots> = allocd ((xs @ [Blk (addr b) (bsz b) True True]) @ upd_pa True ys)"
      by (simp only: allocd_upd_pa)
    finally have "allocd (xs @ b # ys) \<subseteq> allocd (place_blks xs (addr b) (bsz b) n ys)"
      using False by (simp add: place_blks_def)
    moreover have "addr b \<in> allocd (place_blks xs (addr b) (bsz b) n ys)"
      using False by (auto simp add: place_blks_def allocd_def)
    ultimately show ?thesis by simp
  qed
qed

lemma place_ok:
  assumes inv: "hinv s (xs @ b # ys) F epa" and fb: "\<not> alc b"
    and n: "16 \<le> n" "16 dvd n" "n \<le> bsz b"
  shows "\<exists>F'. hinv
      (let s2 = remove_from_free (wa (addr b)) s;
           s3 = write_block (wa (addr b)) (get_size s2 (wa (addr b))) True True s2;
           s4 = split_block (wa (addr b)) (wa n) s3
       in update_next (wa (addr b)) True s4)
      (place_blks xs (addr b) (bsz b) n ys) F' (place_epa (bsz b) n ys epa)"
proof -
  have ok: "heap_ok s (xs @ b # ys) F epa" and comp: "all_listed (xs @ b # ys) F"
    and pa: "pa_cons True (xs @ b # ys) epa" and na: "no_adj (xs @ b # ys)"
    using inv by (simp_all add: hinv_def)
  define a where "a = addr b"
  define sz where "sz = bsz b"
  define k where "k = bucket sz"
  have bin: "b \<in> set (xs @ b # ys)" by simp
  note g = heap_ok_geom[OF ok bin]
  have inl: "addr b \<in> set (F (bucket (bsz b)))" using comp fb by (simp add: all_listed_def)
  define F2 where "F2 = F(k := remove1 a (F k))"
  define s2 where "s2 = remove_from_free (wa a) s"
  have ok2: "heap_ok s2 (xs @ b # ys) F2 epa"
    using remove_from_free_ok[OF ok bin inl] by (simp add: s2_def F2_def a_def k_def sz_def)
  have k15: "k < 15" using bucket_le[of sz] by (simp add: k_def)
  have dk: "distinct (F k)" using heap_ok_distinct[OF ok k15] .
  have set2: "set (F2 i) = (if i = k then set (F k) - {a} else set (F i))" for i
    using dk by (simp add: F2_def)
  have gs: "get_size s2 (wa a) = wa sz"
    using hdr_ok_reads(1)[OF heap_ok_block(1)[OF ok2 bin]] by (simp add: a_def sz_def)
  define B where "B = Blk a sz True True"
  define s3 where "s3 = write_block (wa a) (wa sz) True True s2"
  have ok2': "heap_ok s2 (xs @ [b] @ ys) F2 epa" using ok2 by simp
  have chb: "chain a [b] (a + sz)" using g by (simp add: a_def sz_def)
  have unl: "addr c \<notin> set (F2 (bucket (bsz c)))" if "c \<in> set [b]" for c
    using that by (simp add: set2 a_def k_def sz_def)
  have ok3: "heap_ok s3 (xs @ Blk a sz True True # ys) F2 epa"
    using write_block_ok[OF ok2' chb _ unl, of True True] by (simp add: s3_def)
  define s4 where "s4 = split_block (wa a) (wa n) s3"
  define F4 where "F4 = (if 16 \<le> sz - n
      then F2(bucket (sz - n) := (a + n) # F2 (bucket (sz - n))) else F2)"
  have ok4: "heap_ok s4 (xs @ split_blks a sz n @ ys) F4 epa"
    using split_block_ok[OF ok3 n(1,2)] n(3) by (simp add: s4_def F4_def sz_def)
  define s5 where "s5 = update_next (wa a) True s4"
  have ok5: "heap_ok s5 (place_blks xs a sz n ys) F4 (place_epa sz n ys epa)"
  proof (cases "16 \<le> sz - n")
    case True
    then have "heap_ok s4 (xs @ Blk a n True True # Blk (a + n) (sz - n) False True # ys) F4 epa"
      using ok4 by (simp add: split_blks_def)
    from update_next_ok[OF this, of True] show ?thesis
      using True by (simp add: s5_def place_blks_def place_epa_def)
  next
    case False
    then have "heap_ok s4 (xs @ Blk a sz True True # ys) F4 epa"
      using ok4 by (simp add: split_blks_def)
    from update_next_ok[OF this, of True] show ?thesis
      using False by (simp add: s5_def place_blks_def place_epa_def)
  qed
  have l2: "addr c \<in> set (F2 (bucket (bsz c)))" if c: "c \<in> set xs \<or> c \<in> set ys" "\<not> alc c" for c
  proof -
    have "addr c \<in> set (F (bucket (bsz c)))" using comp c by (auto simp add: all_listed_def)
    moreover have "addr c \<noteq> a" using heap_ok_far[OF ok c(1)] by (simp add: a_def)
    ultimately show ?thesis by (auto simp add: set2)
  qed
  have l4: "addr c \<in> set (F4 (bucket (bsz c)))" if c: "c \<in> set xs \<or> c \<in> set ys" "\<not> alc c" for c
    using l2[OF c] by (auto simp add: F4_def)
  have comp5: "all_listed (place_blks xs a sz n ys) F4"
  proof (cases "16 \<le> sz - n")
    case True
    then show ?thesis using l4 by (auto simp add: all_listed_def place_blks_def F4_def)
  next
    case False
    have "all_listed ((xs @ [Blk a sz True True]) @ ys) F4"
      using l4 by (auto simp add: all_listed_def)
    then have "all_listed ((xs @ [Blk a sz True True]) @ upd_pa True ys) F4"
      by (simp only: all_listed_upd_pa)
    then show ?thesis using False by (simp add: place_blks_def)
  qed
  have "hinv s5 (place_blks xs a sz n ys) F4 (place_epa sz n ys epa)"
    unfolding hinv_def using ok5 comp5 place_pure(1,2)[OF pa na fb, of n]
    by (simp add: a_def sz_def)
  then show ?thesis
    by (auto simp add: Let_def s5_def s4_def s3_def gs[unfolded s2_def a_def sz_def] s2_def
        a_def sz_def)
qed

lemma sint_wa_neg:
  assumes "2 ^ 63 \<le> m" "m < 2 ^ 64"
  shows "sint (wa m) < 0"
proof -
  have "m div 2 ^ 63 = 1" using assms by simp
  then have "bit m 63" by (simp add: bit_iff_odd)
  then have "bit (wa m) (LENGTH(64) - Suc 0)" by (simp add: wa_def bit_simps)
  then show ?thesis unfolding bit_last_iff .
qed

lemma unat_round_up:
  "16 dvd unat (round_up x dsize)"
proof -
  define q where "q = (x + 15) div 16"
  have "unat q = unat (x + 15) div 16" by (simp add: q_def unat_div)
  moreover have "unat (x + 15) < 2 ^ 64" by (rule unat_lt64)
  ultimately have "16 * unat q < 2 ^ 64" by simp
  then have "unat (16 * q) = 16 * unat q" by (simp add: unat_word_ariths)
  then show ?thesis by (simp add: round_up_def dsize_def wsize_def q_def)
qed

lemma asize_facts:
  "16 \<le> unat (max_c (round_up x dsize) min_block_size)"
  "16 dvd unat (max_c (round_up x dsize) min_block_size)"
  using unat_round_up[of x]
  by (auto simp add: max_c_def min_block_size_16 word_less_nat_alt)

lemma chunk_facts:
  assumes "16 \<le> unat a" "16 dvd unat a"
  shows "16 \<le> unat (max_c a chunksize)" "16 dvd unat (max_c a chunksize)"
    "unat a \<le> unat (max_c a chunksize)" "4096 \<le> unat (max_c a chunksize)"
  using assms by (auto simp add: max_c_def chunksize_def word_less_nat_alt)

lemma cblk_size:
  assumes ok: "heap_ok s bs F epa" and pa: "pa_cons True bs epa"
    and nb: "nb = Blk (unat (mem_brk s) - 8) m False epa"
  shows "m \<le> bsz (cblk bs nb [])"
proof -
  have "clo bs nb \<le> unat (mem_brk s) - 8"
  proof (cases epa)
    case True
    then show ?thesis by (simp add: clo_def nb)
  next
    case False
    then have ne: "bs \<noteq> []" using pa_cons_last[OF pa] by auto
    then have "last bs \<in> set bs" by simp
    from heap_ok_geom(2)[OF ok this] show ?thesis using False by (simp add: clo_def nb)
  qed
  then show ?thesis by (simp add: cblk_def chi_def nb)
qed

lemma payload_facts:
  assumes ok: "heap_ok s bs F epa" and b: "b \<in> set bs"
  shows "header_to_payload (wa (addr b)) = wa (addr b + 8)" "wa (addr b + 8) \<noteq> 0"
    "unat (wa (addr b + 8)) = addr b + 8" "16 dvd addr b + 8" "wa (addr b) \<noteq> 0"
proof -
  note g = heap_ok_geom[OF ok b]
  have lt: "addr b + 8 < 2 ^ 64" using g(7) g(3) by simp
  show "header_to_payload (wa (addr b)) = wa (addr b + 8)"
    by (simp add: header_to_payload_def wa_simps)
  show "wa (addr b + 8) \<noteq> 0" using wa_eq_0[OF lt] by simp
  show "unat (wa (addr b + 8)) = addr b + 8" using unat_wa[OF lt] .
  have "addr b = 16 * (addr b div 16) + 8" using g(5) mult_div_mod_eq[of 16 "addr b"] by simp
  then have "addr b + 8 = 16 * (addr b div 16 + 1)" by simp
  then show "16 dvd addr b + 8" by (rule dvdI)
  show "wa (addr b) \<noteq> 0" using wa_eq_0[OF g(10)] g(8) by simp
qed

lemma malloc_unfold:
  assumes hs: "heap_start s \<noteq> 0" and sz: "sz \<noteq> 0"
    and ff: "find_fit s (max_c (round_up (sz + wsize) dsize) min_block_size) = Some r"
    and ex: "(if r = 0
        then extend_heap (max_c (max_c (round_up (sz + wsize) dsize) min_block_size) chunksize) s
        else (r, s)) = (blk, s1)"
  shows "malloc sz s = (if blk = 0 then Some (0, s1)
     else Some (header_to_payload blk,
       place blk (max_c (round_up (sz + wsize) dsize) min_block_size) s1))"
  using hs sz ff ex by (simp add: malloc_def Let_def place_def)

lemma place_hinv:
  assumes inv: "hinv s (xs @ b # ys) F epa" and fb: "\<not> alc b"
    and n: "16 \<le> n" "16 dvd n" "n \<le> bsz b"
  shows "\<exists>F'. hinv (place (wa (addr b)) (wa n) s)
      (place_blks xs (addr b) (bsz b) n ys) F' (place_epa (bsz b) n ys epa)"
  using place_ok[OF assms] by (simp add: place_def)

lemma place_fields [simp]:
  "heap_start (place b n s) = heap_start s"
  "mem_brk (place b n s) = mem_brk s"
  "mem_max_addr (place b n s) = mem_max_addr s"
  by (simp_all add: place_def Let_def)

lemma adjusted_facts:
  "16 \<le> adjusted sz" "16 dvd adjusted sz" "adjusted sz < 2 ^ 64"
  "wa (adjusted sz) = max_c (round_up (sz + wsize) dsize) min_block_size"
  using asize_facts[of "sz + wsize"] unat_lt64 wa_unat
  by (simp_all add: adjusted_def)

lemma grow_by_facts:
  "16 \<le> grow_by sz" "16 dvd grow_by sz" "adjusted sz \<le> grow_by sz" "grow_by sz < 2 ^ 64"
  "wa (grow_by sz) = max_c (max_c (round_up (sz + wsize) dsize) min_block_size) chunksize"
  "4096 \<le> grow_by sz"
  using chunk_facts[OF asize_facts, of "sz + wsize"] unat_lt64 wa_unat
  by (simp_all add: grow_by_def adjusted_def)

lemma malloc_cases:
  assumes inv: "hinv s bs F epa" and sz: "sz \<noteq> 0"
  shows "(\<exists>xs b ys F'. bs = xs @ b # ys \<and> \<not> alc b \<and> adjusted sz \<le> bsz b \<and>
        malloc sz s = Some (wa (addr b + 8), place (wa (addr b)) (wa (adjusted sz)) s) \<and>
        hinv (place (wa (addr b)) (wa (adjusted sz)) s)
          (place_blks xs (addr b) (bsz b) (adjusted sz) ys) F'
          (place_epa (bsz b) (adjusted sz) ys epa))
    \<or> ((\<forall>b \<in> set bs. \<not> alc b \<longrightarrow> bsz b < adjusted sz) \<and>
       (if grow_by sz < 2 ^ 63 \<and> unat (mem_brk s) + grow_by sz \<le> unat (mem_max_addr s)
        then \<exists>s1 F1 F' nb b. nb = Blk (unat (mem_brk s) - 8) (grow_by sz) False epa \<and>
               b = cblk bs nb [] \<and> extend_heap (wa (grow_by sz)) s = (wa (addr b), s1) \<and>
               hinv s1 (cpre bs nb @ [b]) F1 False \<and> adjusted sz \<le> bsz b \<and>
               heap_start s1 = heap_start s \<and> mem_max_addr s1 = mem_max_addr s \<and>
               unat (mem_brk s1) = unat (mem_brk s) + grow_by sz \<and>
               malloc sz s = Some (wa (addr b + 8), place (wa (addr b)) (wa (adjusted sz)) s1) \<and>
               hinv (place (wa (addr b)) (wa (adjusted sz)) s1)
                 (place_blks (cpre bs nb) (addr b) (bsz b) (adjusted sz) []) F'
                 (place_epa (bsz b) (adjusted sz) [] False)
        else malloc sz s = Some (0, s) \<and> extend_heap (wa (grow_by sz)) s = (0, s)))"
proof -
  have ok: "heap_ok s bs F epa" and comp: "all_listed bs F"
    and pa: "pa_cons True bs epa" and na: "no_adj bs"
    using inv by (simp_all add: hinv_def)
  have hs: "heap_start s \<noteq> 0" using ok by (auto simp add: heap_ok_def heap_wf_def)
  define n where "n = adjusted sz"
  define m where "m = grow_by sz"
  note n = adjusted_facts[of sz, folded n_def]
  note m = grow_by_facts[of sz, folded m_def n_def]
  obtain r where ff: "find_fit s (wa n) = Some r"
    and r1: "r \<noteq> 0 \<longrightarrow> (\<exists>b \<in> set bs. r = wa (addr b) \<and> \<not> alc b \<and>
          addr b \<in> set (F (bucket (bsz b))) \<and> n \<le> bsz b)"
    and r0: "r = 0 \<longrightarrow> (\<forall>j a. bucket n \<le> j \<and> j < 15 \<and> a \<in> set (F j) \<longrightarrow>
          unat (get_size s (wa a)) < n)"
    using find_fit_ok[OF ok n(3)] by auto
  have mw: "max_c (wa n) chunksize = wa m" using m(5) n(4) by simp
  note mu = malloc_unfold[OF hs sz ff[unfolded n(4)], folded n(4), unfolded mw]
  show ?thesis
  proof (cases "r = 0")
    case nz: False
    then obtain b where b: "b \<in> set bs" "r = wa (addr b)" "\<not> alc b" "n \<le> bsz b"
      using r1 by blast
    obtain xs ys where bs: "bs = xs @ b # ys" using split_list[OF b(1)] by blast
    have i1: "hinv s (xs @ b # ys) F epa" using inv bs by simp
    have pf: "header_to_payload (wa (addr b)) = wa (addr b + 8)" "wa (addr b) \<noteq> 0"
      using payload_facts(1,5)[OF ok b(1)] .
    have "malloc sz s = Some (wa (addr b + 8), place (wa (addr b)) (wa n) s)"
      using mu[of r s] nz b(2) pf by simp
    moreover obtain F' where "hinv (place (wa (addr b)) (wa n) s)
        (place_blks xs (addr b) (bsz b) n ys) F' (place_epa (bsz b) n ys epa)"
      using place_hinv[OF i1 b(3) n(1,2) b(4)] by blast
    ultimately show ?thesis using bs b(3,4) unfolding n_def by blast
  next
    case z: True
    have small: "bsz b < n" if b: "b \<in> set bs" "\<not> alc b" for b
    proof (rule ccontr)
      assume "\<not> bsz b < n"
      then have le: "n \<le> bsz b" by simp
      have inl: "addr b \<in> set (F (bucket (bsz b)))" using comp b by (simp add: all_listed_def)
      have k: "bucket (bsz b) < 15" using bucket_le[of "bsz b"] by simp
      have "unat (get_size s (wa (addr b))) < n"
        using r0 z bucket_mono[OF le] k inl by blast
      moreover have "get_size s (wa (addr b)) = wa (bsz b)"
        using hdr_ok_reads(1)[OF heap_ok_block(1)[OF ok b(1)]] .
      ultimately show False using le unat_wa[OF heap_ok_geom(9)[OF ok b(1)]] by simp
    qed
    show ?thesis
    proof (cases "m < 2 ^ 63 \<and> unat (mem_brk s) + m \<le> unat (mem_max_addr s)")
      case True
      define nb where "nb = Blk (unat (mem_brk s) - 8) m False epa"
      obtain s1 F1 where e1: "extend_heap (wa m) s = (wa (clo bs nb), s1)"
        and i1: "hinv s1 (cpre bs nb @ [cblk bs nb []]) F1 False"
        and f1: "heap_start s1 = heap_start s" "mem_max_addr s1 = mem_max_addr s"
          "unat (mem_brk s1) = unat (mem_brk s) + m"
        using extend_heap_ok[OF inv m(1,2) _ _ nb_def] True by blast
      define b where "b = cblk bs nb []"
      have i1': "hinv s1 (cpre bs nb @ b # []) F1 False" using i1 by (simp add: b_def)
      have ab: "addr b = clo bs nb" and fb: "\<not> alc b" by (simp_all add: b_def cblk_def)
      have le: "n \<le> bsz b" using cblk_size[OF ok pa nb_def] m(3) by (simp add: b_def)
      have ok1: "heap_ok s1 (cpre bs nb @ b # []) F1 False" using i1' by (simp add: hinv_def)
      have pf: "header_to_payload (wa (addr b)) = wa (addr b + 8)" "wa (addr b) \<noteq> 0"
        using payload_facts(1,5)[OF ok1, of b] by simp_all
      have ml: "malloc sz s = Some (wa (addr b + 8), place (wa (addr b)) (wa n) s1)"
        using mu[of "wa (addr b)" s1] z e1 pf by (simp add: ab)
      obtain F' where F': "hinv (place (wa (addr b)) (wa n) s1)
          (place_blks (cpre bs nb) (addr b) (bsz b) n []) F' (place_epa (bsz b) n [] False)"
        using place_hinv[OF i1' fb n(1,2) le] by blast
      have "\<exists>s1 F1 F' nb b. nb = Blk (unat (mem_brk s) - 8) m False epa \<and>
               b = cblk bs nb [] \<and> extend_heap (wa m) s = (wa (addr b), s1) \<and>
               hinv s1 (cpre bs nb @ [b]) F1 False \<and> n \<le> bsz b \<and>
               heap_start s1 = heap_start s \<and> mem_max_addr s1 = mem_max_addr s \<and>
               unat (mem_brk s1) = unat (mem_brk s) + m \<and>
               malloc sz s = Some (wa (addr b + 8), place (wa (addr b)) (wa n) s1) \<and>
               hinv (place (wa (addr b)) (wa n) s1)
                 (place_blks (cpre bs nb) (addr b) (bsz b) n []) F'
                 (place_epa (bsz b) n [] False)"
        using nb_def b_def e1[folded ab] i1[folded b_def] le f1 ml F' by blast
      then show ?thesis using True small unfolding n_def m_def by auto
    next
      case False
      then have "sint (wa m) < 0 \<or> unat (mem_max_addr s) < unat (mem_brk s) + unat (wa m)"
        using sint_wa_neg[of m] m(4) unat_wa[OF m(4)] by auto
      then have e: "extend_heap (wa m) s = (0, s)"
        using extend_heap_fail[of "wa m" s] round_up_16[OF m(2,4)] by simp
      then have "malloc sz s = Some (0, s)"
        using mu[of 0 s] z by simp
      then show ?thesis using False small e unfolding n_def m_def by auto
    qed
  qed
qed

lemma place_result:
  assumes i1: "hinv s1 (xs @ b # ys) F1 e1" and fb: "\<not> alc b"
    and hv: "hinv s' (place_blks xs (addr b) (bsz b) n ys) F' e'"
  shows "allocd (xs @ b # ys) \<subseteq> allocd (place_blks xs (addr b) (bsz b) n ys)"
    "addr b \<in> allocd (place_blks xs (addr b) (bsz b) n ys)"
    "wa (addr b + 8) \<noteq> 0" "16 dvd unat (wa (addr b + 8))"
proof -
  have ok1: "heap_ok s1 (xs @ b # ys) F1 e1" and pa1: "pa_cons True (xs @ b # ys) e1"
    and na1: "no_adj (xs @ b # ys)"
    using i1 by (simp_all add: hinv_def)
  have bin: "b \<in> set (xs @ b # ys)" by simp
  note pf = payload_facts[OF ok1 bin]
  note pp = place_pure(3)[OF pa1 na1 fb, of n]
  show "allocd (xs @ b # ys) \<subseteq> allocd (place_blks xs (addr b) (bsz b) n ys)"
    "addr b \<in> allocd (place_blks xs (addr b) (bsz b) n ys)"
    using pp by auto
  show "wa (addr b + 8) \<noteq> 0" "16 dvd unat (wa (addr b + 8))" using pf by simp_all
qed

lemma malloc_ok:
  assumes inv: "hinv s bs F epa"
  shows "\<exists>p s' bs' F' epa'. malloc sz s = Some (p, s') \<and> hinv s' bs' F' epa' \<and>
      allocd bs \<subseteq> allocd bs' \<and> (p \<noteq> 0 \<longrightarrow> (\<exists>a \<in> allocd bs'. p = wa (a + 8))) \<and>
      16 dvd unat p \<and> (p = 0 \<longrightarrow> s' = s) \<and>
      heap_start s' = heap_start s \<and> mem_max_addr s' = mem_max_addr s"
proof (cases "sz = 0")
  case True
  have "heap_start s \<noteq> 0" using inv by (auto simp add: hinv_def heap_ok_def heap_wf_def)
  then have "malloc sz s = Some (0, s)" using True by (simp add: malloc_def)
  then show ?thesis using inv by auto
next
  case False
  define n where "n = adjusted sz"
  define m where "m = grow_by sz"
  have pa: "pa_cons True bs epa" and na: "no_adj bs" using inv by (simp_all add: hinv_def)
  from malloc_cases[OF inv False, folded n_def m_def] show ?thesis
  proof (elim disjE exE conjE)
    fix xs b ys F'
    assume a: "bs = xs @ b # ys" "\<not> alc b"
      "malloc sz s = Some (wa (addr b + 8), place (wa (addr b)) (wa n) s)"
      "hinv (place (wa (addr b)) (wa n) s) (place_blks xs (addr b) (bsz b) n ys) F'
        (place_epa (bsz b) n ys epa)"
    note pr = place_result[OF inv[unfolded a(1)] a(2) a(4)]
    show ?thesis
      using a pr
      by (intro exI[of _ "wa (addr b + 8)"] exI[of _ "place (wa (addr b)) (wa n) s"]
          exI[of _ "place_blks xs (addr b) (bsz b) n ys"] exI[of _ F']
          exI[of _ "place_epa (bsz b) n ys epa"]) auto
  next
    assume c: "if m < 2 ^ 63 \<and> unat (mem_brk s) + m \<le> unat (mem_max_addr s)
        then \<exists>s1 F1 F' nb b. nb = Blk (unat (mem_brk s) - 8) m False epa \<and>
               b = cblk bs nb [] \<and> extend_heap (wa m) s = (wa (addr b), s1) \<and>
               hinv s1 (cpre bs nb @ [b]) F1 False \<and> n \<le> bsz b \<and>
               heap_start s1 = heap_start s \<and> mem_max_addr s1 = mem_max_addr s \<and>
               unat (mem_brk s1) = unat (mem_brk s) + m \<and>
               malloc sz s = Some (wa (addr b + 8), place (wa (addr b)) (wa n) s1) \<and>
               hinv (place (wa (addr b)) (wa n) s1)
                 (place_blks (cpre bs nb) (addr b) (bsz b) n []) F'
                 (place_epa (bsz b) n [] False)
        else malloc sz s = Some (0, s) \<and> extend_heap (wa m) s = (0, s)"
    show ?thesis
    proof (cases "m < 2 ^ 63 \<and> unat (mem_brk s) + m \<le> unat (mem_max_addr s)")
      case True
      then obtain s1 F1 F' nb b where a: "nb = Blk (unat (mem_brk s) - 8) m False epa"
        "b = cblk bs nb []" "hinv s1 (cpre bs nb @ [b]) F1 False"
        "heap_start s1 = heap_start s" "mem_max_addr s1 = mem_max_addr s"
        "malloc sz s = Some (wa (addr b + 8), place (wa (addr b)) (wa n) s1)"
        "hinv (place (wa (addr b)) (wa n) s1)
                 (place_blks (cpre bs nb) (addr b) (bsz b) n []) F'
                 (place_epa (bsz b) n [] False)"
        using c by auto
      have fb: "\<not> alc b" by (simp add: a(2) cblk_def)
      have i1: "hinv s1 (cpre bs nb @ b # []) F1 False" using a(3) by simp
      note pr = place_result[OF i1 fb a(7)]
      have pc: "pal nb \<longleftrightarrow> bs = [] \<or> alc (last bs)"
        using pa_cons_last[OF pa] by (auto simp add: a(1))
      have "allocd bs \<subseteq> allocd (cpre bs nb @ b # [])"
        using cpre_pure(4)[OF pa na pc] by (auto simp add: allocd_def)
      then have sub: "allocd bs \<subseteq> allocd (place_blks (cpre bs nb) (addr b) (bsz b) n [])"
        using pr(1) by (rule order_trans)
      show ?thesis
        using a(4,5,6,7) pr(2,3,4) sub
        by (intro exI[of _ "wa (addr b + 8)"] exI[of _ "place (wa (addr b)) (wa n) s1"]
            exI[of _ "place_blks (cpre bs nb) (addr b) (bsz b) n []"] exI[of _ F']
            exI[of _ "place_epa (bsz b) n [] False"]) auto
    next
      case False
      then have "malloc sz s = Some (0, s)" using c by simp
      then show ?thesis using inv by auto
    qed
  qed
qed

lemma epi_pack_init: "epi_ok (pack 0 True True) True"
proof -
  have "pack 0 True True AND NOT 15 = 0"
    by (rule bit_word_eqI) (auto simp add: bits_pack bit_simps bit_consts)
  then show ?thesis
    by (simp add: epi_ok_def extract_alloc_bit extract_prev_alloc_bit extract_mini_bit
        extract_size_def size_mask_def bits_pack)
qed

lemma rd_heap_start [simp]: "rd (s\<lparr>heap_start := v\<rparr>) x = rd s x"
  by (simp add: rd_def)

lemma mm_init_ok:
  assumes al: "16 dvd unat (mem_brk s)"
    and fit: "unat (mem_brk s) + 4112 \<le> unat (mem_max_addr s)"
  shows "\<exists>s' F'. mm_init s = (True, s') \<and>
      hinv s' [Blk (unat (mem_brk s) + 8) 4096 False True] F' False \<and>
      heap_start s' = mem_brk s + 8 \<and> unat (mem_brk s') = unat (mem_brk s) + 4112 \<and>
      mem_max_addr s' = mem_max_addr s"
proof -
  define B where "B = unat (mem_brk s)"
  have mx: "unat (mem_max_addr s) < 2 ^ 64" by (rule unat_lt64)
  have B64: "B + 4112 < 2 ^ 64" using fit mx by (simp add: B_def)
  have wB: "wa B = mem_brk s" by (simp add: B_def wa_unat)
  define s1 where "s1 = s\<lparr>mem_brk := mem_brk s + 16\<rparr>"
  have s16: "\<not> sint (16 :: 64 word) < 0" using sint_wa[of 16] by simp
  have sb: "mem_sbrk (2 * wsize) s = (mem_brk s, s1)"
    using fit s16 by (simp add: mem_sbrk_def wsize_def s1_def)
  have "unat (- 1 :: 64 word) mod 16 = 15" by (simp add: unsigned_minus_1_eq_mask mask_eq_exp_minus_1)
  then have "unat (mem_brk s) \<noteq> unat (- 1 :: 64 word)" using al by auto
  then have bn: "mem_brk s \<noteq> - 1" by auto
  define s5 where "s5 = (store_word (mem_brk s + 8) (pack 0 True True)
      (store_word (mem_brk s) (pack 0 True True) (free_root_init s1)))\<lparr>heap_start := mem_brk s + 8\<rparr>"
  have u8: "unat (mem_brk s + 8) = B + 8" and u16: "unat (mem_brk s + 16) = B + 16"
    using B64 unat_wa[of "B + 8"] unat_wa[of "B + 16"] by (simp_all add: wB[symmetric] wa_simps)
  have f5: "heap_start s5 = mem_brk s + 8" "mem_brk s5 = mem_brk s + 16"
    "mem_max_addr s5 = mem_max_addr s" "\<And>i. i < 15 \<Longrightarrow> free_root s5 i = 0"
    by (simp_all add: s5_def s1_def free_root_init_def)
  have d8: "8 dvd B" using al by (auto simp add: B_def elim!: dvdE)
  have c8: "cellp (B + 8)" using d8 B64 by (simp add: cellp_def)
  have "rd s5 (B + 8) = pack 0 True True"
    using rd_store_word[OF c8 c8] by (simp add: s5_def wB[symmetric] wa_simps)
  then have epi: "epi_ok (rd s5 (unat (mem_brk s5) - 8)) True"
    using epi_pack_init by (simp add: f5 u16 add.commute)
  have m8: "(B + 8) mod 16 = 8" using al by (auto simp add: B_def elim!: dvdE)
  have wf5: "heap_wf s5 [] (\<lambda>_. []) "
    using fit m8 by (simp add: heap_wf_def f5 u8 u16 lists_ok_def B_def[symmetric] wa_def)
  have inv5: "hinv s5 [] (\<lambda>_. []) True"
    using wf5 epi by (simp add: hinv_def heap_ok_def all_listed_def)
  define nb where "nb = Blk (unat (mem_brk s5) - 8) 4096 False True"
  have fit5: "unat (mem_brk s5) + 4096 \<le> unat (mem_max_addr s5)"
    using fit by (simp add: f5 u16 B_def)
  obtain s6 F6 where e6: "extend_heap (wa 4096) s5 = (wa (clo [] nb), s6)"
    and i6: "hinv s6 (cpre [] nb @ [cblk [] nb []]) F6 False"
    and f6: "heap_start s6 = heap_start s5" "mem_max_addr s6 = mem_max_addr s5"
      "unat (mem_brk s6) = unat (mem_brk s5) + 4096"
    using extend_heap_ok[OF inv5 _ _ _ fit5 nb_def] by auto
  have nbv: "nb = Blk (B + 8) 4096 False True" by (simp add: nb_def f5 u16)
  have cl: "clo [] nb = B + 8" "cpre [] nb = []" "cblk [] nb [] = Blk (B + 8) 4096 False True"
    by (simp_all add: clo_def cpre_def cblk_def chi_def nbv)
  have nz: "wa (B + 8) \<noteq> 0" using wa_eq_0[of "B + 8"] B64 by simp
  have "mm_init s = (True, s6)"
    using e6 nz bn
    by (simp add: mm_init_def sb Let_def s5_def[symmetric] chunksize_def cl)
  then show ?thesis using i6 f6 by (auto simp add: cl f5 u16 B_def)
qed

lemma init_small:
  "\<exists>s' F'. mm_init arena_small = (True, s') \<and> hinv s' [Blk 4104 4096 False True] F' False \<and>
      heap_start s' = 4104 \<and> unat (mem_brk s') = 8208 \<and> mem_max_addr s' = 8208"
  using mm_init_ok[of arena_small] by (simp add: arena_small_def)

lemma init_large:
  "\<exists>s' F'. mm_init arena_large = (True, s') \<and> hinv s' [Blk 4104 4096 False True] F' False \<and>
      heap_start s' = 4104 \<and> unat (mem_brk s') = 8208 \<and> mem_max_addr s' = 65536"
  using mm_init_ok[of arena_large] by (simp add: arena_large_def)

lemma extend_heap_round:
  assumes "0 < unat (round_up sz dsize)"
  shows "extend_heap sz s = extend_heap (wa (unat (round_up sz dsize))) s"
    "16 \<le> unat (round_up sz dsize)"
proof -
  define m where "m = unat (round_up sz dsize)"
  have d: "16 dvd m" using unat_round_up[of sz] by (simp add: m_def)
  then show "16 \<le> unat (round_up sz dsize)" using assms by (auto simp add: m_def elim!: dvdE)
  have m64: "m < 2 ^ 64" unfolding m_def by (rule unat_lt64)
  have w: "wa m = round_up sz dsize" by (simp add: m_def wa_unat)
  have "round_up (round_up sz dsize) dsize = round_up sz dsize"
    using round_up_16[OF d m64] w by simp
  then show "extend_heap sz s = extend_heap (wa (unat (round_up sz dsize))) s"
    by (simp add: extend_heap_def wa_unat)
qed

lemma hinv_listed:
  assumes "hinv s bs F epa" "b \<in> set bs" "\<not> alc b"
  shows "addr b \<in> set (F (bucket (bsz b)))"
  using assms by (simp add: hinv_def all_listed_def)

lemma extend_heap_sbrk_fail:
  assumes "mem_sbrk (round_up sz dsize) s = (- 1, s)"
  shows "extend_heap sz s = (0, s)"
  using assms by (simp add: extend_heap_def Let_def)

lemma malloc_sbrk_fail:
  assumes hs: "heap_start s \<noteq> 0" and req: "req \<noteq> 0"
    and ff: "find_fit s (wa (adjusted req)) = Some 0"
    and sb: "mem_sbrk (wa (grow_by req)) s = (- 1, s)"
  shows "malloc req s = Some (0, s)"
proof -
  have "round_up (wa (grow_by req)) dsize = wa (grow_by req)"
    using round_up_16[OF grow_by_facts(2,4)] .
  then have "extend_heap (wa (grow_by req)) s = (0, s)"
    using extend_heap_sbrk_fail[of "wa (grow_by req)" s] sb by simp
  then show ?thesis
    using malloc_unfold[OF hs req ff[unfolded adjusted_facts(4)], of 0 s]
    by (simp add: grow_by_facts(5)[symmetric])
qed

lemma extend_heap_complete:
  assumes inv: "hinv s bs F epa" and pos: "0 < unat (round_up sz dsize)"
    and sb: "fst (mem_sbrk (round_up sz dsize) s) \<noteq> - 1"
  shows "\<exists>s' bs' F' b. extend_heap sz s = (wa (addr b), s') \<and> wa (addr b) \<noteq> 0 \<and>
         hinv s' bs' F' False \<and> b \<in> set bs' \<and> \<not> alc b \<and>
         addr b \<in> set (F' (bucket (bsz b))) \<and> unat (round_up sz dsize) \<le> bsz b \<and>
         unat (mem_brk s') = unat (mem_brk s) + unat (round_up sz dsize) \<and>
         epi_ok (rd s' (unat (mem_brk s') - 8)) False"
proof -
  define m where "m = unat (round_up sz dsize)"
  have m64: "m < 2 ^ 64" unfolding m_def by (rule unat_lt64)
  have w: "wa m = round_up sz dsize" by (simp add: m_def wa_unat)
  have d: "16 dvd m" using unat_round_up[of sz] by (simp add: m_def)
  have m16: "16 \<le> m" using extend_heap_round(2)[OF pos] by (simp add: m_def)
  have ok: "\<not> (sint (wa m) < 0 \<or> unat (mem_max_addr s) < unat (mem_brk s) + m)"
    using sb by (auto simp add: mem_sbrk_def w[symmetric] unat_wa[OF m64] split: if_splits)
  have m63: "m < 2 ^ 63"
  proof (rule ccontr)
    assume "\<not> m < 2 ^ 63"
    then have "2 ^ 63 \<le> m" by simp
    from sint_wa_neg[OF this m64] ok show False by simp
  qed
  have fit: "unat (mem_brk s) + m \<le> unat (mem_max_addr s)" using ok by simp
  have ok0: "heap_ok s bs F epa" and pa: "pa_cons True bs epa" using inv by (simp_all add: hinv_def)
  define nb where "nb = Blk (unat (mem_brk s) - 8) m False epa"
  define b where "b = cblk bs nb []"
  obtain s' F' where e: "extend_heap (wa m) s = (wa (clo bs nb), s')"
    and i: "hinv s' (cpre bs nb @ [b]) F' False"
    and brk: "unat (mem_brk s') = unat (mem_brk s) + m"
    using extend_heap_ok[OF inv m16 d m63 fit nb_def] unfolding b_def by blast
  have ab: "addr b = clo bs nb" and fb: "\<not> alc b" by (simp_all add: b_def cblk_def)
  have bin: "b \<in> set (cpre bs nb @ [b])" by simp
  have ok': "heap_ok s' (cpre bs nb @ [b]) F' False" using i by (simp add: hinv_def)
  have e': "extend_heap sz s = (wa (addr b), s')"
    using extend_heap_round(1)[OF pos, of s] e by (simp add: m_def ab)
  have "unat (round_up sz dsize) \<le> bsz b"
    using cblk_size[OF ok0 pa nb_def] by (simp add: b_def m_def)
  then show ?thesis
    using e' payload_facts(5)[OF ok' bin] i bin fb hinv_listed[OF i bin fb] brk
      heap_ok_epi[OF ok']
    unfolding m_def by blast
qed

text \<open>
  Claim C9. When the growth service \<open>mem_sbrk\<close> fails, \<open>extend_heap\<close> returns the null block
  and the heap state is the one it was called with, and an \<open>malloc\<close> call that found no fit
  and could not grow returns the null pointer, again with the state unchanged. When the
  growth service succeeds on a well-formed heap, \<open>extend_heap\<close> returns a non-null free block
  of at least the (rounded) requested size that is linked into its bucket, the break has
  moved by that size, the epilogue header sits in the last word before the new break, and
  the heap is well-formed again.
\<close>

theorem extend_heap_atomic:
  "(mem_sbrk (round_up sz dsize) s = (- 1, s) \<longrightarrow> extend_heap sz s = (0, s)) \<and>
   (heap_start s \<noteq> 0 \<and> req \<noteq> 0 \<and> find_fit s (wa (adjusted req)) = Some 0 \<and>
      mem_sbrk (wa (grow_by req)) s = (- 1, s) \<longrightarrow> malloc req s = Some (0, s)) \<and>
   (hinv s bs F epa \<and> 0 < unat (round_up sz dsize) \<and>
      fst (mem_sbrk (round_up sz dsize) s) \<noteq> - 1 \<longrightarrow>
      (\<exists>s' bs' F' b. extend_heap sz s = (wa (addr b), s') \<and> wa (addr b) \<noteq> 0 \<and>
         hinv s' bs' F' False \<and> b \<in> set bs' \<and> \<not> alc b \<and>
         addr b \<in> set (F' (bucket (bsz b))) \<and> unat (round_up sz dsize) \<le> bsz b \<and>
         unat (mem_brk s') = unat (mem_brk s) + unat (round_up sz dsize) \<and>
         epi_ok (rd s' (unat (mem_brk s') - 8)) False))"
  using extend_heap_sbrk_fail[of sz s] malloc_sbrk_fail[of s req]
    extend_heap_complete[of s bs F epa sz]
  by blast

lemma small_init_inv:
  "mm_init arena_small = (True, small_init)"
  "\<exists>F. hinv small_init [Blk 4104 4096 False True] F False"
  "heap_start small_init = 4104" "unat (mem_brk small_init) = 8208"
  "mem_max_addr small_init = 8208"
  using init_small by (auto simp add: small_init_def)

lemma large_init_inv:
  "mm_init arena_large = (True, large_init)"
  "\<exists>F. hinv large_init [Blk 4104 4096 False True] F False"
  "heap_start large_init = 4104" "unat (mem_brk large_init) = 8208"
  "mem_max_addr large_init = 65536"
  using init_large by (auto simp add: large_init_def)

lemma adjusted_4088: "adjusted 4088 = 4096"
proof -
  have "round_up (4088 + wsize) dsize = 4096"
    using round_up_16[of 4096] by (simp add: wsize_def)
  then show ?thesis by (simp add: adjusted_def max_c_def min_block_size_16)
qed

lemma full_heap_inv:
  "malloc 4088 small_init = Some (4112, full_heap)"
  "full_ptr = 4112"
  "\<exists>F. hinv full_heap [Blk 4104 4096 True True] F True"
  "heap_start full_heap = 4104" "unat (mem_brk full_heap) = 8208"
  "mem_max_addr full_heap = 8208"
proof -
  obtain F where inv: "hinv small_init [Blk 4104 4096 False True] F False"
    using small_init_inv(2) by blast
  define s1 where "s1 = place (wa 4104) (wa 4096) small_init"
  have "malloc 4088 small_init = Some (4112, s1) \<and>
      (\<exists>F'. hinv s1 [Blk 4104 4096 True True] F' True)"
    using malloc_cases[OF inv, of 4088]
    by (auto simp add: adjusted_4088 Cons_eq_append_conv place_blks_def place_epa_def s1_def)
  then have m: "malloc 4088 small_init = Some (4112, s1)"
    and h: "\<exists>F'. hinv s1 [Blk 4104 4096 True True] F' True" by simp_all
  have fh: "full_heap = s1" "full_ptr = 4112" using m by (simp_all add: full_heap_def full_ptr_def)
  show "malloc 4088 small_init = Some (4112, full_heap)" "full_ptr = 4112"
    "\<exists>F. hinv full_heap [Blk 4104 4096 True True] F True"
    using m h fh by simp_all
  show "heap_start full_heap = 4104" "unat (mem_brk full_heap) = 8208"
    "mem_max_addr full_heap = 8208"
    using small_init_inv(3,4,5) by (simp_all add: fh s1_def)
qed

lemma find_fit_none:
  assumes inv: "hinv s bs F epa" and al: "\<forall>b \<in> set bs. alc b" and n: "n < 2 ^ 64"
  shows "find_fit s (wa n) = Some 0"
proof -
  have ok: "heap_ok s bs F epa" using inv by (simp add: hinv_def)
  from find_fit_ok[OF ok n] al show ?thesis by auto
qed

lemma full_heap_exhausted:
  "find_fit full_heap (wa (adjusted sz)) = Some 0"
  "mem_sbrk (wa (grow_by sz)) full_heap = (- 1, full_heap)"
proof -
  obtain F where inv: "hinv full_heap [Blk 4104 4096 True True] F True"
    using full_heap_inv(3) by blast
  show "find_fit full_heap (wa (adjusted sz)) = Some 0"
    using find_fit_none[OF inv _ adjusted_facts(3)] by simp
  have g: "unat (wa (grow_by sz)) = grow_by sz" using unat_wa[OF grow_by_facts(4)] .
  show "mem_sbrk (wa (grow_by sz)) full_heap = (- 1, full_heap)"
    using grow_by_facts(6)[of sz] by (simp add: mem_sbrk_def g full_heap_inv(5,6))
qed


lemma round_up_4096: "round_up 4096 dsize = 4096"
  using round_up_16[of 4096] by simp

theorem extend_heap_atomic_witness:
  "extend_heap 4096 full_heap = (0, full_heap) \<and>
   malloc 1 full_heap = Some (0, full_heap) \<and>
   (\<exists>s' bs' F' b. extend_heap 4096 large_init = (wa (addr b), s') \<and> wa (addr b) \<noteq> 0 \<and>
      hinv s' bs' F' False \<and> b \<in> set bs' \<and> \<not> alc b \<and>
      addr b \<in> set (F' (bucket (bsz b))) \<and> 4096 \<le> bsz b \<and>
      unat (mem_brk s') = 12304 \<and> epi_ok (rd s' (unat (mem_brk s') - 8)) False)"
proof -
  have f1: "mem_sbrk (round_up 4096 dsize) full_heap = (- 1, full_heap)"
    by (simp add: round_up_4096 mem_sbrk_def full_heap_inv(5,6))
  have f2: "heap_start full_heap \<noteq> 0" "(1 :: 64 word) \<noteq> 0" by (simp_all add: full_heap_inv(4))
  obtain F where inv: "hinv large_init [Blk 4104 4096 False True] F False"
    using large_init_inv(2) by blast
  have s4096: "\<not> sint (4096 :: 64 word) < 0" using sint_wa[of 4096] by simp
  have "unat (mem_brk large_init) \<noteq> unat (- 1 :: 64 word)"
    by (simp add: large_init_inv(4) unsigned_minus_1_eq_mask mask_eq_exp_minus_1)
  then have "mem_brk large_init \<noteq> - 1" by auto
  then have f3: "fst (mem_sbrk (round_up 4096 dsize) large_init) \<noteq> - 1"
    using s4096 by (simp add: round_up_4096 mem_sbrk_def large_init_inv(4,5))
  have p: "0 < unat (round_up 4096 dsize)" by (simp add: round_up_4096)
  note a = extend_heap_atomic[of 4096 full_heap 1]
  note b = extend_heap_atomic[of 4096 large_init _ "[Blk 4104 4096 False True]" F False]
  have c1: "extend_heap 4096 full_heap = (0, full_heap)" using a f1 by blast
  have c2: "malloc 1 full_heap = Some (0, full_heap)"
    using a f2 full_heap_exhausted[of 1] by blast
  have c3: "\<exists>s' bs' F' b. extend_heap 4096 large_init = (wa (addr b), s') \<and> wa (addr b) \<noteq> 0 \<and>
         hinv s' bs' F' False \<and> b \<in> set bs' \<and> \<not> alc b \<and>
         addr b \<in> set (F' (bucket (bsz b))) \<and> unat (round_up 4096 dsize) \<le> bsz b \<and>
         unat (mem_brk s') = unat (mem_brk large_init) + unat (round_up 4096 dsize) \<and>
         epi_ok (rd s' (unat (mem_brk s') - 8)) False"
    using b inv p f3 by blast
  show ?thesis using c1 c2 c3 by (simp add: round_up_4096 large_init_inv(4))
qed

lemma allocd_reads:
  assumes inv: "hinv s bs F epa" and a: "a \<in> allocd bs"
  shows "get_alloc s (payload_to_header (wa (a + 8)))" "16 dvd unat (wa (a + 8))"
    "wa (a + 8) \<noteq> 0"
proof -
  have ok: "heap_ok s bs F epa" using inv by (simp add: hinv_def)
  obtain c where c: "c \<in> set bs" "alc c" "addr c = a" using a by (auto simp add: allocd_def)
  have ph: "payload_to_header (wa (a + 8)) = wa a"
    by (simp add: payload_to_header_def wa_simps)
  show "get_alloc s (payload_to_header (wa (a + 8)))"
    using hdr_ok_reads(2)[OF heap_ok_block(1)[OF ok c(1)]] c(2,3) by (simp add: ph)
  show "16 dvd unat (wa (a + 8))" "wa (a + 8) \<noteq> 0"
    using payload_facts(2,3,4)[OF ok c(1)] c(3) by simp_all
qed

text \<open>
  Claim C3. On a well-formed heap (the state \<open>mm_init\<close> establishes and \<open>malloc\<close> and
  \<open>free\<close> keep), every call \<open>malloc size\<close> with \<open>size > 0\<close> returns; when the pointer it
  returns is not null, that address is a multiple of 16 and is the payload of a block whose
  header is marked allocated; and the heap is well-formed again.
\<close>

theorem malloc_aligned:
  assumes "hinv s bs F epa" and "sz \<noteq> 0"
  shows "\<exists>p s'. malloc sz s = Some (p, s') \<and>
      (p \<noteq> 0 \<longrightarrow> 16 dvd unat p \<and> get_alloc s' (payload_to_header p)) \<and>
      (\<exists>bs' F' epa'. hinv s' bs' F' epa')"
proof -
  obtain p s' bs' F' epa' where m: "malloc sz s = Some (p, s')" and i: "hinv s' bs' F' epa'"
    and a: "p \<noteq> 0 \<longrightarrow> (\<exists>a \<in> allocd bs'. p = wa (a + 8))"
    using malloc_ok[OF assms(1), of sz] by blast
  have "16 dvd unat p \<and> get_alloc s' (payload_to_header p)" if "p \<noteq> 0"
    using a that allocd_reads(1,2)[OF i] by blast
  then show ?thesis using m i by blast
qed

theorem malloc_aligned_witness:
  "malloc 4088 small_init = Some (4112, full_heap) \<and> 16 dvd unat (4112 :: 64 word) \<and>
   get_alloc full_heap (payload_to_header 4112)"
proof -
  obtain F where inv: "hinv small_init [Blk 4104 4096 False True] F False"
    using small_init_inv(2) by blast
  have nz: "(4088 :: 64 word) \<noteq> 0" "(4112 :: 64 word) \<noteq> 0" by simp_all
  from malloc_aligned[OF inv nz(1)] full_heap_inv(1) nz(2) show ?thesis by auto
qed

text \<open>
  Claim C4. On a well-formed heap, whose lists satisfy the bucketing invariant, and for an
  adjusted size \<open>n\<close> that is a multiple of 16 and at least 16, \<open>find_fit\<close> returns. A non-null
  result is a free block of the heap, linked in its bucket, whose size is at least \<open>n\<close>. The
  null result is returned only when no list from the home bucket upward holds a block of
  size at least \<open>n\<close>. Every block in a bucket above the home bucket has size at least \<open>n\<close>, so
  the head taken from a fallback bucket is large enough.
\<close>

theorem find_fit_correct:
  assumes "heap_ok s bs F epa" and "16 \<le> n" and "16 dvd n" and "n < 2 ^ 64"
  shows "\<exists>r. find_fit s (wa n) = Some r \<and>
     (r \<noteq> 0 \<longrightarrow> \<not> get_alloc s r \<and> wa n \<le> get_size s r \<and>
        (\<exists>b \<in> set bs. r = wa (addr b) \<and> \<not> alc b \<and>
           addr b \<in> set (F (bucket (bsz b))) \<and> n \<le> bsz b)) \<and>
     (r = 0 \<longrightarrow> (\<forall>j a. bucket n \<le> j \<and> j < 15 \<and> a \<in> set (F j) \<longrightarrow>
        get_size s (wa a) < wa n)) \<and>
     (\<forall>j a. bucket n < j \<and> j < 15 \<and> a \<in> set (F j) \<longrightarrow> wa n \<le> get_size s (wa a))"
proof -
  note ok = assms(1) and n64 = assms(4)
  obtain r where ff: "find_fit s (wa n) = Some r"
    and r1: "r \<noteq> 0 \<longrightarrow> (\<exists>b \<in> set bs. r = wa (addr b) \<and> \<not> alc b \<and>
          addr b \<in> set (F (bucket (bsz b))) \<and> n \<le> bsz b)"
    and r0: "r = 0 \<longrightarrow> (\<forall>j a. bucket n \<le> j \<and> j < 15 \<and> a \<in> set (F j) \<longrightarrow>
          unat (get_size s (wa a)) < n)"
    using find_fit_ok[OF ok n64] by blast
  have cmp: "wa n \<le> w \<longleftrightarrow> n \<le> unat w" for w :: "64 word"
    by (simp add: word_le_nat_alt unat_wa[OF n64])
  have cmp': "w < wa n \<longleftrightarrow> unat w < n" for w :: "64 word"
    by (simp add: word_less_nat_alt unat_wa[OF n64])
  have p1: "\<not> get_alloc s r \<and> wa n \<le> get_size s r" if rn: "r \<noteq> 0"
  proof -
    obtain b where b: "b \<in> set bs" "r = wa (addr b)" "\<not> alc b" "n \<le> bsz b"
      using r1 rn by blast
    note h = hdr_ok_reads[OF heap_ok_block(1)[OF ok b(1)]]
    show ?thesis using h(1,2) b unat_wa[OF heap_ok_geom(9)[OF ok b(1)]] by (simp add: cmp)
  qed
  have p3: "wa n \<le> get_size s (wa a)" if j: "bucket n < j" "j < 15" "a \<in> set (F j)" for j a
  proof -
    obtain b where b: "b \<in> set bs" "addr b = a" "bucket (bsz b) = j"
      "unat (get_size s (wa a)) = bsz b"
      using listed_facts(5)[OF ok j(2,3)] by blast
    have "n \<le> bsz b"
    proof (rule ccontr)
      assume "\<not> n \<le> bsz b"
      then have "bucket (bsz b) \<le> bucket n" by (intro bucket_mono) simp
      then show False using b(3) j(1) by simp
    qed
    then show ?thesis using b(4) by (simp add: cmp)
  qed
  show ?thesis using ff r1 r0 p1 p3 by (auto simp add: cmp')
qed

theorem find_fit_correct_witness:
  "find_fit small_init 32 = Some 4104 \<and> \<not> get_alloc small_init 4104 \<and>
   32 \<le> get_size small_init 4104"
proof -
  obtain F where inv: "hinv small_init [Blk 4104 4096 False True] F False"
    using small_init_inv(2) by blast
  have ok: "heap_ok small_init [Blk 4104 4096 False True] F False"
    using inv by (simp add: hinv_def)
  have l: "4104 \<in> set (F (bucket 4096))"
    using hinv_listed[OF inv, of "Blk 4104 4096 False True"] by simp
  have k: "bucket 4096 < 15" using bucket_le[of 4096] by simp
  have gs: "get_size small_init 4104 = 4096"
    using hdr_ok_reads(1)[OF heap_ok_block(1)[OF ok, of "Blk 4104 4096 False True"]] by simp
  have bm: "bucket 32 \<le> bucket 4096" by (rule bucket_mono) simp
  obtain r where r: "find_fit small_init (wa 32) = Some r"
    "r \<noteq> 0 \<longrightarrow> \<not> get_alloc small_init r \<and> wa 32 \<le> get_size small_init r \<and>
        (\<exists>b \<in> set [Blk 4104 4096 False True]. r = wa (addr b) \<and> \<not> alc b \<and>
           addr b \<in> set (F (bucket (bsz b))) \<and> 32 \<le> bsz b)"
    "r = 0 \<longrightarrow> (\<forall>j a. bucket 32 \<le> j \<and> j < 15 \<and> a \<in> set (F j) \<longrightarrow>
        get_size small_init (wa a) < wa 32)"
    using find_fit_correct[OF ok, of 32] by auto
  have "r \<noteq> 0"
  proof
    assume "r = 0"
    then have "get_size small_init (wa 4104) < wa 32" using r(3) bm k l by blast
    then show False by (simp add: gs)
  qed
  then show ?thesis using r(1,2) by auto
qed









































lemma memcpy_fields [simp]:
  "heap_start (memcpy d p n s) = heap_start s"
  "free_root (memcpy d p n s) = free_root s"
  "mem_brk (memcpy d p n s) = mem_brk s"
  "mem_max_addr (memcpy d p n s) = mem_max_addr s"
  by (simp_all add: memcpy_def)



















end
